theory Spec2Isabelle
  imports Main "HOL-Library.Extended_Nat"
begin

section \<open>Data model (src/hopkroft-karp.ts)\<close>

text \<open>
  JavaScript numbers that carry vertex indices and partition sizes are modelled as
  mathematical integers (\<open>int\<close>); the spec types them as integers. The distance array holds
  natural numbers and \<open>Infinity\<close>, which is \<open>enat\<close>: \<open>\<infinity> + 1 = \<infinity>\<close> there as in
  JavaScript. Two limits of the runtime are part of the model: an array has at most
  \<open>2^32 - 1\<close> elements (a longer one is a RangeError), and the call stack admits a bounded
  number of nested calls (one more is a RangeError). Memory exhaustion is not modelled.
\<close>

record BipartiteGraph =
  leftSize :: int
  rightSize :: int
  edges :: "int list list"

text \<open>The field \<open>size\<close> of the source is \<open>size_m\<close> here (\<open>size\<close> is a HOL constant).\<close>

record Matching =
  matchLeft :: "int list"
  matchRight :: "int list"
  size_m :: int

text \<open>
  The source has one error class, \<open>BipartiteGraphError\<close>, thrown at three places with a
  message. The two constructors below separate the throw sites as the spec's taxonomy
  does: the partition-size checks and the edge check. The message of the source is a
  template literal over numbers; the model keeps what the template is filled with and
  not the rendered text: the name of the parameter and its value for a partition size,
  and the pair \<open>u\<close>, \<open>v\<close> with \<open>leftSize\<close> and \<open>rightSize\<close> for an edge. \<open>RangeError\<close> and
  \<open>TypeError\<close> are the runtime's own (an array length out of range, a call stack that
  is full, iterating \<open>undefined\<close>).
\<close>

datatype error =
    InvalidPartitionSize string int
  | InvalidEdge int int int int
  | RangeError
  | TypeError

record BipartiteGraphOptions =
  validateInput :: "bool option"
  skipInvalidEdges :: "bool option"

text \<open>The largest length of a JavaScript array, \<open>2^32 - 1\<close>.\<close>

definition max_array_length :: int where
  "max_array_length = 4294967295"

section \<open>Graph builder: createBipartiteGraph\<close>

definition invalid_edge :: "int \<Rightarrow> int \<Rightarrow> int \<Rightarrow> int \<Rightarrow> bool" where
  "invalid_edge l r u v \<longleftrightarrow> u < 0 \<or> u \<ge> l \<or> v < 0 \<or> v \<ge> r"

text \<open>The loop \<open>for (const [u, v] of edges)\<close> over the adjacency list built so far.\<close>

fun add_edges ::
  "int \<Rightarrow> int \<Rightarrow> bool \<Rightarrow> bool \<Rightarrow> int list list \<Rightarrow> (int \<times> int) list \<Rightarrow> error + int list list"
where
  "add_edges l r val skip adj [] = Inr adj"
| "add_edges l r val skip adj ((u, v) # es) =
     (if invalid_edge l r u v then
        (if val \<and> \<not> skip then Inl (InvalidEdge u v l r)
         else add_edges l r val skip adj es)
      else add_edges l r val skip (adj[nat u := adj ! nat u @ [v]]) es)"

definition default_options :: BipartiteGraphOptions where
  "default_options = \<lparr>validateInput = None, skipInvalidEdges = None\<rparr>"

definition opt_validate :: "BipartiteGraphOptions \<Rightarrow> bool" where
  "opt_validate opts = (case validateInput opts of None \<Rightarrow> True | Some b \<Rightarrow> b)"

definition opt_skip :: "BipartiteGraphOptions \<Rightarrow> bool" where
  "opt_skip opts = (case skipInvalidEdges opts of None \<Rightarrow> True | Some b \<Rightarrow> b)"

text \<open>
  After the two size checks, \<open>Array.from({ length: leftSize }, () => [])\<close> allocates the
  rows: a negative length counts as 0, and a length above \<open>2^32 - 1\<close> is a RangeError.
\<close>

definition createBipartiteGraph ::
  "int \<Rightarrow> int \<Rightarrow> (int \<times> int) list \<Rightarrow> BipartiteGraphOptions \<Rightarrow> error + BipartiteGraph"
where
  "createBipartiteGraph l r es opts =
     (if opt_validate opts \<and> l < 0 then Inl (InvalidPartitionSize ''leftSize'' l)
      else if opt_validate opts \<and> r < 0 then Inl (InvalidPartitionSize ''rightSize'' r)
      else if l > max_array_length then Inl RangeError
      else
        (case add_edges l r (opt_validate opts) (opt_skip opts) (replicate (nat l) []) es of
           Inl e \<Rightarrow> Inl e
         | Inr adj \<Rightarrow> Inr \<lparr>leftSize = l, rightSize = r, edges = adj\<rparr>))"

section \<open>Matching engine: class HopcroftKarp\<close>

definition NIL :: int where
  "NIL = - 1"

text \<open>
  The private fields of the class. \<open>this_graph\<close> is the graph the engine refers to: an
  external mutation of its adjacency lists between two calls is an update of this field.
  The three arrays are lists. The constructor gives them \<open>leftSize\<close>, \<open>rightSize\<close> and
  \<open>leftSize + 1\<close> elements, no method changes these lengths, and with these lengths every
  index the class writes at lies inside the array: \<open>bfs\<close> writes \<open>dist\<close> at \<open>u < leftSize\<close>,
  at \<open>leftSize\<close> and where it has just read \<open>Infinity\<close>; \<open>dfs\<close> writes \<open>matchRight\<close> at a
  \<open>v\<close> with \<open>0 \<le> v < rightSize\<close>, and \<open>matchLeft\<close> and \<open>dist\<close> at its argument, which is below
  \<open>leftSize\<close> in the first call and has a distance read from \<open>dist\<close> in a nested one. So a
  write is the list update \<open>xs[i := v]\<close>; a read outside an array is \<open>undefined\<close>.
\<close>

record HopcroftKarp =
  this_graph :: BipartiteGraph
  this_matchLeft :: "int list"
  this_matchRight :: "int list"
  this_dist :: "enat list"

text \<open>
  The result of a method: \<open>Inl (e, hk)\<close> when it throws \<open>e\<close> and leaves the engine in the
  state \<open>hk\<close>, \<open>Inr\<close> when it returns.
\<close>

type_synonym 'a result = "(error \<times> HopcroftKarp) + 'a"

text \<open>
  Reading a JavaScript array at a number: \<open>None\<close> is \<open>undefined\<close> (index out of range).
\<close>

definition arr_get :: "'a list \<Rightarrow> int \<Rightarrow> 'a option" where
  "arr_get xs i = (if 0 \<le> i \<and> i < int (length xs) then Some (xs ! nat i) else None)"

text \<open>
  The constructor: \<open>new Array(n)\<close> throws a RangeError unless \<open>0 \<le> n \<le> 2^32 - 1\<close>, for
  each of the three arrays in turn.
\<close>

definition array_length_ok :: "int \<Rightarrow> bool" where
  "array_length_ok n \<longleftrightarrow> 0 \<le> n \<and> n \<le> max_array_length"

definition new_HopcroftKarp :: "BipartiteGraph \<Rightarrow> error + HopcroftKarp" where
  "new_HopcroftKarp g =
     (if \<not> array_length_ok (leftSize g) then Inl RangeError
      else if \<not> array_length_ok (rightSize g) then Inl RangeError
      else if \<not> array_length_ok (leftSize g + 1) then Inl RangeError
      else Inr \<lparr>this_graph = g,
                this_matchLeft = replicate (nat (leftSize g)) NIL,
                this_matchRight = replicate (nat (rightSize g)) NIL,
                this_dist = replicate (nat (leftSize g + 1)) 0\<rparr>)"

subsection \<open>bfs\<close>

text \<open>The initialisation loop of \<open>bfs\<close> over \<open>u = 0, ..., leftSize - 1\<close>.\<close>

fun bfs_init :: "int list \<Rightarrow> enat list \<Rightarrow> int list \<Rightarrow> int list \<Rightarrow> enat list \<times> int list" where
  "bfs_init ml d q [] = (d, q)"
| "bfs_init ml d q (u # us) =
     (if arr_get ml u = Some NIL then bfs_init ml (d[nat u := 0]) (q @ [u]) us
      else bfs_init ml (d[nat u := \<infinity>]) q us)"

text \<open>\<open>this.dist[a] < this.dist[b]\<close>; a comparison with \<open>undefined\<close> is false.\<close>

definition dist_less :: "enat list \<Rightarrow> int \<Rightarrow> int \<Rightarrow> bool" where
  "dist_less d a b =
     (case (arr_get d a, arr_get d b) of (Some x, Some y) \<Rightarrow> x < y | _ \<Rightarrow> False)"

text \<open>\<open>this.dist[next] === this.dist[u] + 1\<close>.\<close>

definition dist_is_succ :: "enat list \<Rightarrow> int \<Rightarrow> int \<Rightarrow> bool" where
  "dist_is_succ d next u =
     (case (arr_get d next, arr_get d u) of (Some x, Some y) \<Rightarrow> x = y + 1 | _ \<Rightarrow> False)"

text \<open>The loop \<open>for (const v of this.graph.edges[u])\<close> of \<open>bfs\<close>.\<close>

fun bfs_edges ::
  "int \<Rightarrow> int \<Rightarrow> int list \<Rightarrow> int \<Rightarrow> enat list \<Rightarrow> int list \<Rightarrow> int list \<Rightarrow> enat list \<times> int list"
where
  "bfs_edges L R mr u d q [] = (d, q)"
| "bfs_edges L R mr u d q (v # vs) =
     (if v < 0 \<or> v \<ge> R then bfs_edges L R mr u d q vs
      else
        (case arr_get mr v of
           None \<Rightarrow> bfs_edges L R mr u d q vs
         | Some matchedU \<Rightarrow>
             let idx = (if matchedU = NIL then L else matchedU) in
             if arr_get d idx = Some \<infinity> then
               bfs_edges L R mr u (d[nat idx := d ! nat u + 1])
                 (if matchedU \<noteq> NIL then q @ [matchedU] else q) vs
             else bfs_edges L R mr u d q vs))"

definition count_inf :: "enat list \<Rightarrow> nat" where
  "count_inf d = length (filter (\<lambda>x. x = \<infinity>) d)"

lemma count_inf_update:
  assumes "i < length d" "d ! i = \<infinity>" "x \<noteq> \<infinity>"
  shows "Suc (count_inf (d[i := x])) = count_inf d"
proof -
  have d: "d = take i d @ d ! i # drop (Suc i) d"
    using assms(1) by (simp add: id_take_nth_drop)
  have u: "d[i := x] = take i d @ x # drop (Suc i) d"
    using assms(1) by (simp add: upd_conv_take_nth_drop)
  have "count_inf d = count_inf (take i d) + 1 + count_inf (drop (Suc i) d)"
    using assms(2) by (subst d) (simp add: count_inf_def)
  moreover have "count_inf (d[i := x]) = count_inf (take i d) + count_inf (drop (Suc i) d)"
    using assms(3) by (subst u) (simp add: count_inf_def)
  ultimately show ?thesis by simp
qed

lemma bfs_edges_measure:
  "arr_get d u = Some (enat k) \<Longrightarrow> bfs_edges L R mr u d q vs = (d', q') \<Longrightarrow>
   arr_get d' u = Some (enat k) \<and> count_inf d' + length q' \<le> count_inf d + length q"
proof (induction vs arbitrary: d q)
  case Nil
  then show ?case by simp
next
  case (Cons v vs)
  show ?case
  proof (cases "\<not> (v < 0 \<or> v \<ge> R) \<and>
      (\<exists>m. arr_get mr v = Some m \<and> arr_get d (if m = NIL then L else m) = Some \<infinity>)")
    case False
    with Cons.prems have "bfs_edges L R mr u d q vs = (d', q')"
      by (auto split: option.splits if_splits simp: Let_def)
    from Cons.IH[OF Cons.prems(1) this] show ?thesis .
  next
    case True
    then obtain m where m: "arr_get mr v = Some m"
      and inf: "arr_get d (if m = NIL then L else m) = Some \<infinity>" by blast
    define idx where "idx = (if m = NIL then L else m)"
    define d1 where "d1 = d[nat idx := d ! nat u + 1]"
    define q1 where "q1 = (if m \<noteq> NIL then q @ [m] else q)"
    from inf have idx: "0 \<le> idx" "nat idx < length d" "d ! nat idx = \<infinity>"
      by (auto simp: arr_get_def idx_def split: if_splits)
    from Cons.prems(1) have u: "0 \<le> u" "nat u < length d" "d ! nat u = enat k"
      by (auto simp: arr_get_def split: if_splits)
    from idx u have ne: "nat idx \<noteq> nat u" by auto
    from True m Cons.prems(2) have run: "bfs_edges L R mr u d1 q1 vs = (d', q')"
      by (simp add: Let_def idx_def d1_def q1_def inf)
    have g1: "arr_get d1 u = Some (enat k)"
      using u ne by (simp add: arr_get_def d1_def)
    have "d ! nat u + 1 \<noteq> \<infinity>" using u by (simp add: one_enat_def)
    from count_inf_update[OF idx(2,3) this] have c: "Suc (count_inf d1) = count_inf d"
      by (simp add: d1_def)
    have "length q1 \<le> Suc (length q)" by (simp add: q1_def)
    with Cons.IH[OF g1 run] c show ?thesis by linarith
  qed
qed

text \<open>
  The loop \<open>while (queue.length > 0)\<close> of \<open>bfs\<close>. Iterating \<open>this.graph.edges[u]\<close> when it
  is \<open>undefined\<close> throws a TypeError; the distances written so far stay.
\<close>

function bfs_loop ::
  "BipartiteGraph \<Rightarrow> int list \<Rightarrow> enat list \<Rightarrow> int list \<Rightarrow> (error \<times> enat list) + enat list"
where
  "bfs_loop g mr d [] = Inr d"
| "bfs_loop g mr d (u # q) =
     (if dist_less d u (leftSize g) then
        (case arr_get (edges g) u of
           None \<Rightarrow> Inl (TypeError, d)
         | Some vs \<Rightarrow> bfs_loop g mr (fst (bfs_edges (leftSize g) (rightSize g) mr u d q vs))
                                   (snd (bfs_edges (leftSize g) (rightSize g) mr u d q vs)))
      else bfs_loop g mr d q)"
  by pat_completeness auto
termination
proof (relation "measure (\<lambda>(g, mr, d, q). count_inf d + length q)", goal_cases)
  case 1
  show ?case by simp
next
  case (2 g mr d u q vs)
  from 2(1) obtain a b where "arr_get d u = Some a" "a < b"
    by (cases "arr_get d u"; cases "arr_get d (leftSize g)") (auto simp: dist_less_def)
  then obtain k where k: "arr_get d u = Some (enat k)"
    by (cases a) auto
  obtain d' q' where r: "bfs_edges (leftSize g) (rightSize g) mr u d q vs = (d', q')"
    by (cases "bfs_edges (leftSize g) (rightSize g) mr u d q vs")
  from bfs_edges_measure[OF k r] r show ?case by simp
next
  case (3 g mr d u q)
  show ?case by simp
qed

definition bfs :: "HopcroftKarp \<Rightarrow> (HopcroftKarp \<times> bool) result" where
  "bfs hk =
     (let L = leftSize (this_graph hk);
          (d0, q0) = bfs_init (this_matchLeft hk) (this_dist hk) [] [0..L - 1];
          d1 = d0[nat L := \<infinity>]
      in case bfs_loop (this_graph hk) (this_matchRight hk) d1 q0 of
           Inl (e, d) \<Rightarrow> Inl (e, hk\<lparr>this_dist := d\<rparr>)
         | Inr d \<Rightarrow> Inr (hk\<lparr>this_dist := d\<rparr>, arr_get d L \<noteq> Some \<infinity>))"

subsection \<open>dfs\<close>

definition flip :: "HopcroftKarp \<Rightarrow> int \<Rightarrow> int \<Rightarrow> HopcroftKarp" where
  "flip hk u v =
     hk\<lparr>this_matchRight := (this_matchRight hk)[nat v := u],
        this_matchLeft := (this_matchLeft hk)[nat u := v]\<rparr>"

text \<open>
  \<open>dfs_loop s hk u vs\<close> is \<open>dfs(u)\<close> from the point where the neighbours \<open>vs\<close> of \<open>u\<close> are
  still to be tried, on a call stack that admits \<open>s\<close> more nested activations of \<open>dfs\<close>.
  The recursive call \<open>this.dfs(next)\<close> needs one of them: with none left it is the
  runtime's RangeError (the recursion of the source has no bound of its own); otherwise
  it returns \<open>true\<close> at once when \<open>next\<close> is the sink, and else scans the neighbours of
  \<open>next\<close>.
\<close>

function dfs_loop :: "nat \<Rightarrow> HopcroftKarp \<Rightarrow> int \<Rightarrow> int list \<Rightarrow> (HopcroftKarp \<times> bool) result" where
  "dfs_loop s hk u [] = Inr (hk\<lparr>this_dist := (this_dist hk)[nat u := \<infinity>]\<rparr>, False)"
| "dfs_loop s hk u (v # vs) =
     (if v < 0 \<or> v \<ge> rightSize (this_graph hk) then dfs_loop s hk u vs
      else
        (case arr_get (this_matchRight hk) v of
           None \<Rightarrow> dfs_loop s hk u vs
         | Some matchedU \<Rightarrow>
             let next = (if matchedU = NIL then leftSize (this_graph hk) else matchedU) in
             if dist_is_succ (this_dist hk) next u then
               (case s of
                  0 \<Rightarrow> Inl (RangeError, hk)
                | Suc s' \<Rightarrow>
                    if next = leftSize (this_graph hk) then Inr (flip hk u v, True)
                    else
                      (case arr_get (edges (this_graph hk)) next of
                         None \<Rightarrow> Inl (TypeError, hk)
                       | Some ns \<Rightarrow>
                           (case dfs_loop s' hk next ns of
                              Inl e \<Rightarrow> Inl e
                            | Inr (hk', ok) \<Rightarrow>
                                if ok then Inr (flip hk' u v, True)
                                else dfs_loop s hk' u vs)))
             else dfs_loop s hk u vs))"
  by pat_completeness auto
termination
  by (relation "measures [\<lambda>(s, hk, u, vs). s, \<lambda>(s, hk, u, vs). length vs]") auto

text \<open>
  The call \<open>this.dfs(u)\<close> made by \<open>findMaximumMatching\<close>, on a call stack that admits
  \<open>stack\<close> nested activations of \<open>dfs\<close>.
\<close>

definition dfs :: "nat \<Rightarrow> HopcroftKarp \<Rightarrow> int \<Rightarrow> (HopcroftKarp \<times> bool) result" where
  "dfs stack hk u =
     (case stack of
        0 \<Rightarrow> Inl (RangeError, hk)
      | Suc s \<Rightarrow>
          if u = leftSize (this_graph hk) then Inr (hk, True)
          else
            (case arr_get (edges (this_graph hk)) u of
               None \<Rightarrow> Inl (TypeError, hk)
             | Some vs \<Rightarrow> dfs_loop s hk u vs))"

subsection \<open>findMaximumMatching and findPerfectMatching\<close>

text \<open>The loop \<open>for (let u = 0; u < leftSize; u++)\<close> of one phase, with the running count.\<close>

fun augment_all :: "nat \<Rightarrow> HopcroftKarp \<Rightarrow> int \<Rightarrow> int list \<Rightarrow> (HopcroftKarp \<times> int) result" where
  "augment_all stack hk n [] = Inr (hk, n)"
| "augment_all stack hk n (u # us) =
     (if arr_get (this_matchLeft hk) u = Some NIL then
        (case dfs stack hk u of
           Inl e \<Rightarrow> Inl e
         | Inr (hk', ok) \<Rightarrow> augment_all stack hk' (if ok then n + 1 else n) us)
      else augment_all stack hk n us)"

text \<open>
  The loop \<open>while (this.bfs())\<close>. Nothing in the source bounds the number of phases, so
  not returning is the value \<open>None\<close>.
\<close>

partial_function (option) phases ::
  "nat \<Rightarrow> HopcroftKarp \<Rightarrow> int \<Rightarrow> (HopcroftKarp \<times> int) result option"
where
  "phases stack hk n =
     (case bfs hk of
        Inl e \<Rightarrow> Some (Inl e)
      | Inr (hk1, found) \<Rightarrow>
          if found then
            (case augment_all stack hk1 n [0..leftSize (this_graph hk1) - 1] of
               Inl e \<Rightarrow> Some (Inl e)
             | Inr (hk2, n2) \<Rightarrow> phases stack hk2 n2)
          else Some (Inr (hk1, n)))"

declare phases.simps [code]

text \<open>
  Both methods return their value together with the engine's state after the call;
  \<open>stack\<close> is the number of nested activations of \<open>dfs\<close> the call stack admits.
\<close>

definition findMaximumMatching ::
  "nat \<Rightarrow> HopcroftKarp \<Rightarrow> (Matching \<times> HopcroftKarp) result option"
where
  "findMaximumMatching stack hk =
     (case phases stack hk 0 of
        None \<Rightarrow> None
      | Some (Inl e) \<Rightarrow> Some (Inl e)
      | Some (Inr (hk', matchingSize)) \<Rightarrow>
          Some (Inr (\<lparr>matchLeft = this_matchLeft hk',
                      matchRight = this_matchRight hk',
                      size_m = matchingSize\<rparr>, hk')))"

text \<open>\<open>None\<close> in the first component of the value is the source's \<open>null\<close>.\<close>

definition findPerfectMatching ::
  "nat \<Rightarrow> HopcroftKarp \<Rightarrow> (Matching option \<times> HopcroftKarp) result option"
where
  "findPerfectMatching stack hk =
     (case findMaximumMatching stack hk of
        None \<Rightarrow> None
      | Some (Inl e) \<Rightarrow> Some (Inl e)
      | Some (Inr (matching, hk')) \<Rightarrow>
          Some (Inr (if size_m matching = leftSize (this_graph hk') \<and>
                        size_m matching = rightSize (this_graph hk')
                     then Some matching else None, hk')))"

section \<open>Vocabulary of the proofs\<close>

subsection \<open>Reading the engine state\<close>

definition LS :: "HopcroftKarp \<Rightarrow> int" where
  "LS hk = leftSize (this_graph hk)"

definition RS :: "HopcroftKarp \<Rightarrow> int" where
  "RS hk = rightSize (this_graph hk)"

text \<open>
  Total readings of the arrays: outside the array a match is \<open>NIL\<close>, a distance is
  \<open>\<infinity>\<close> and a row is empty. Inside the arrays they are the entries.
\<close>

definition mL :: "HopcroftKarp \<Rightarrow> int \<Rightarrow> int" where
  "mL hk u = (case arr_get (this_matchLeft hk) u of Some v \<Rightarrow> v | None \<Rightarrow> NIL)"

definition mR :: "HopcroftKarp \<Rightarrow> int \<Rightarrow> int" where
  "mR hk v = (case arr_get (this_matchRight hk) v of Some u \<Rightarrow> u | None \<Rightarrow> NIL)"

definition dd :: "HopcroftKarp \<Rightarrow> int \<Rightarrow> enat" where
  "dd hk x = (case arr_get (this_dist hk) x of Some k \<Rightarrow> k | None \<Rightarrow> \<infinity>)"

definition row :: "HopcroftKarp \<Rightarrow> int \<Rightarrow> int list" where
  "row hk u = (case arr_get (edges (this_graph hk)) u of Some vs \<Rightarrow> vs | None \<Rightarrow> [])"

definition nxt :: "HopcroftKarp \<Rightarrow> int \<Rightarrow> int" where
  "nxt hk m = (if m = NIL then LS hk else m)"

definition kill :: "HopcroftKarp \<Rightarrow> int \<Rightarrow> HopcroftKarp" where
  "kill hk u = hk\<lparr>this_dist := (this_dist hk)[nat u := \<infinity>]\<rparr>"

text \<open>The arrays have the lengths the constructor gave them.\<close>

definition shape :: "HopcroftKarp \<Rightarrow> bool" where
  "shape hk \<longleftrightarrow>
     0 \<le> LS hk \<and> 0 \<le> RS hk \<and>
     length (this_matchLeft hk) = nat (LS hk) \<and>
     length (this_matchRight hk) = nat (RS hk) \<and>
     length (this_dist hk) = nat (LS hk) + 1"

text \<open>Every left vertex has an adjacency list.\<close>

definition rows :: "HopcroftKarp \<Rightarrow> bool" where
  "rows hk \<longleftrightarrow> nat (LS hk) \<le> length (edges (this_graph hk))"

text \<open>
  The test of one neighbour \<open>v\<close> in \<open>dfs(u)\<close>: the vertex to call \<open>dfs\<close> on, if any.
\<close>

definition step :: "HopcroftKarp \<Rightarrow> int \<Rightarrow> int \<Rightarrow> int option" where
  "step hk u v =
     (if v < 0 \<or> v \<ge> RS hk then None
      else case arr_get (this_matchRight hk) v of
             None \<Rightarrow> None
           | Some m \<Rightarrow> if dist_is_succ (this_dist hk) (nxt hk m) u then Some (nxt hk m) else None)"

text \<open>The runs of \<open>dfs_loop\<close> that return without an error, as a big-step relation.\<close>

inductive DFS :: "HopcroftKarp \<Rightarrow> int \<Rightarrow> int list \<Rightarrow> HopcroftKarp \<Rightarrow> bool \<Rightarrow> bool" where
  DFS_Nil: "DFS hk u [] (kill hk u) False"
| DFS_Skip: "step hk u v = None \<Longrightarrow> DFS hk u vs hk' b \<Longrightarrow> DFS hk u (v # vs) hk' b"
| DFS_Sink: "step hk u v = Some (LS hk) \<Longrightarrow> DFS hk u (v # vs) (flip hk u v) True"
| DFS_Succ: "step hk u v = Some x \<Longrightarrow> x \<noteq> LS hk \<Longrightarrow>
     arr_get (edges (this_graph hk)) x = Some ns \<Longrightarrow>
     DFS hk x ns hk1 True \<Longrightarrow> DFS hk u (v # vs) (flip hk1 u v) True"
| DFS_Fail: "step hk u v = Some x \<Longrightarrow> x \<noteq> LS hk \<Longrightarrow>
     arr_get (edges (this_graph hk)) x = Some ns \<Longrightarrow>
     DFS hk x ns hk1 False \<Longrightarrow> DFS hk1 u vs hk' b \<Longrightarrow> DFS hk u (v # vs) hk' b"

subsection \<open>The invariant of the matching\<close>

text \<open>
  \<open>LC\<close>: a matched left vertex is the partner of its partner. \<open>RC hk w\<close>: a matched right
  vertex other than \<open>w\<close> is the partner of its partner; \<open>w\<close> is the right vertex whose
  left partner has just been given another partner, and \<open>RC hk NIL\<close> exempts none.
\<close>

definition LC :: "HopcroftKarp \<Rightarrow> bool" where
  "LC hk \<longleftrightarrow>
     (\<forall>x. 0 \<le> x \<and> x < LS hk \<longrightarrow>
        mL hk x = NIL \<or> (0 \<le> mL hk x \<and> mL hk x < RS hk \<and> mR hk (mL hk x) = x))"

definition RC :: "HopcroftKarp \<Rightarrow> int \<Rightarrow> bool" where
  "RC hk w \<longleftrightarrow>
     (\<forall>y. 0 \<le> y \<and> y < RS hk \<longrightarrow>
        mR hk y = NIL \<or>
        (0 \<le> mR hk y \<and> mR hk y < LS hk \<and> (y \<noteq> w \<longrightarrow> mL hk (mR hk y) = y)))"

text \<open>
  \<open>dfs_pre\<close> is what holds when \<open>dfs(u)\<close> is called, and \<open>dpost hk u hk' b\<close> what holds when
  it returns \<open>b\<close> in state \<open>hk'\<close>: a failed call changes distances only, to \<open>Infinity\<close>,
  and a successful one changes the matching in the layers from \<open>u\<close> on only and never
  unmatches a left vertex.
\<close>

definition dfs_pre :: "HopcroftKarp \<Rightarrow> int \<Rightarrow> bool" where
  "dfs_pre hk u \<longleftrightarrow>
     shape hk \<and> LC hk \<and> RC hk NIL \<and> 0 \<le> u \<and> u < LS hk \<and> dd hk u \<noteq> \<infinity>"

definition dpost :: "HopcroftKarp \<Rightarrow> int \<Rightarrow> HopcroftKarp \<Rightarrow> bool \<Rightarrow> bool" where
  "dpost hk u hk' b \<longleftrightarrow>
     this_graph hk' = this_graph hk \<and> shape hk' \<and>
     (\<forall>x. dd hk' x = dd hk x \<or>
          (dd hk' x = \<infinity> \<and> 0 \<le> x \<and> x < LS hk \<and> dd hk u \<le> dd hk x \<and>
           (x = u \<or> mL hk x \<noteq> NIL))) \<and>
     (\<not> b \<longrightarrow> this_matchLeft hk' = this_matchLeft hk \<and>
              this_matchRight hk' = this_matchRight hk) \<and>
     (b \<longrightarrow> LC hk' \<and> RC hk' (mL hk u) \<and> mL hk' u \<noteq> NIL \<and>
        (\<forall>x. x \<noteq> u \<longrightarrow> (mL hk' x = NIL \<longleftrightarrow> mL hk x = NIL)) \<and>
        (\<forall>x. mL hk' x \<noteq> mL hk x \<longrightarrow> dd hk u \<le> dd hk x \<and> dd hk x \<noteq> \<infinity>) \<and>
        (\<forall>y. mR hk' y \<noteq> mR hk y \<longrightarrow> mR hk y = NIL \<or> dd hk u < dd hk (mR hk y)) \<and>
        (mL hk u \<noteq> NIL \<longrightarrow> (\<forall>x. mL hk' x \<noteq> mL hk u)))"

subsection \<open>The layers above a vertex\<close>

text \<open>The vertices in the layers after the layer of \<open>u\<close>: a bound of the depth of \<open>dfs(u)\<close>.\<close>

definition above :: "HopcroftKarp \<Rightarrow> int \<Rightarrow> int set" where
  "above hk u = {z. 0 \<le> z \<and> z \<le> LS hk \<and> dd hk z \<noteq> \<infinity> \<and> dd hk u < dd hk z}"

text \<open>Two states with the same graph, the same matching and distance arrays of one length.\<close>

definition same_match :: "HopcroftKarp \<Rightarrow> HopcroftKarp \<Rightarrow> bool" where
  "same_match hk hk' \<longleftrightarrow>
     this_graph hk' = this_graph hk \<and> this_matchLeft hk' = this_matchLeft hk \<and>
     this_matchRight hk' = this_matchRight hk \<and>
     length (this_dist hk') = length (this_dist hk)"

subsection \<open>The invariant of the layering\<close>

definition dget :: "enat list \<Rightarrow> int \<Rightarrow> enat" where
  "dget d x = (case arr_get d x of Some k \<Rightarrow> k | None \<Rightarrow> \<infinity>)"

text \<open>
  \<open>binv hk D q P\<close>: \<open>D\<close> is the distance array during the search, \<open>q\<close> the queue and \<open>P\<close>
  the pairs \<open>(u, v)\<close> of the row being scanned that are still to come.
\<close>

definition binv :: "HopcroftKarp \<Rightarrow> (int \<Rightarrow> enat) \<Rightarrow> int list \<Rightarrow> (int \<times> int) set \<Rightarrow> bool" where
  "binv hk D q P \<longleftrightarrow>
     (\<forall>u\<in>set q. 0 \<le> u \<and> u < LS hk \<and> D u \<noteq> \<infinity>) \<and>
     (\<forall>x. 0 \<le> x \<and> x \<le> LS hk \<and> D x \<noteq> \<infinity> \<longrightarrow>
        (x < LS hk \<and> mL hk x = NIL \<and> D x = 0) \<or>
        (\<exists>u v. 0 \<le> u \<and> u < LS hk \<and> v \<in> set (row hk u) \<and> 0 \<le> v \<and> v < RS hk \<and>
               nxt hk (mR hk v) = x \<and> D u \<noteq> \<infinity> \<and> D x = D u + 1)) \<and>
     (\<forall>u. 0 \<le> u \<and> u < LS hk \<and> mL hk u = NIL \<longrightarrow> D u = 0) \<and>
     (D (LS hk) = \<infinity> \<longrightarrow>
        (\<forall>u. 0 \<le> u \<and> u < LS hk \<and> D u \<noteq> \<infinity> \<longrightarrow>
           u \<in> set q \<or>
           (\<forall>v\<in>set (row hk u). (u, v) \<in> P \<or> \<not> (0 \<le> v \<and> v < RS hk) \<or>
              (mR hk v \<noteq> NIL \<and> D (mR hk v) \<noteq> \<infinity>))))"

definition with_dist :: "HopcroftKarp \<Rightarrow> enat list \<Rightarrow> HopcroftKarp" where
  "with_dist hk d = hk\<lparr>this_dist := d\<rparr>"

text \<open>What \<open>bfs\<close> establishes.\<close>

definition layered :: "HopcroftKarp \<Rightarrow> bool" where
  "layered hk \<longleftrightarrow> binv hk (dd hk) [] {}"

subsection \<open>Vertices with a layered path to the sink\<close>

text \<open>
  \<open>good hk u\<close>: from the left vertex \<open>u\<close> there is a path to the sink along which the
  distance grows by one at every step, the paths \<open>dfs\<close> follows.
\<close>

inductive good :: "HopcroftKarp \<Rightarrow> int \<Rightarrow> bool" for hk where
  good_step: "0 \<le> u \<Longrightarrow> u < LS hk \<Longrightarrow> dd hk u \<noteq> \<infinity> \<Longrightarrow> v \<in> set (row hk u) \<Longrightarrow>
     0 \<le> v \<Longrightarrow> v < RS hk \<Longrightarrow> x = nxt hk (mR hk v) \<Longrightarrow> dd hk x = dd hk u + 1 \<Longrightarrow>
     x = LS hk \<or> good hk x \<Longrightarrow> good hk u"

definition live :: "HopcroftKarp \<Rightarrow> int \<Rightarrow> int \<Rightarrow> bool" where
  "live hk u v \<longleftrightarrow>
     0 \<le> v \<and> v < RS hk \<and> dd hk (nxt hk (mR hk v)) = dd hk u + 1 \<and>
     (nxt hk (mR hk v) = LS hk \<or> good hk (nxt hk (mR hk v)))"

text \<open>Every matched pair is an entry of an adjacency list.\<close>

definition EV :: "HopcroftKarp \<Rightarrow> bool" where
  "EV hk \<longleftrightarrow> (\<forall>z. mL hk z \<noteq> NIL \<longrightarrow> mL hk z \<in> set (row hk z))"

subsection \<open>The invariant of the engine\<close>

text \<open>What holds of the engine between two calls.\<close>

definition engine_inv :: "HopcroftKarp \<Rightarrow> bool" where
  "engine_inv hk \<longleftrightarrow> shape hk \<and> LC hk \<and> RC hk NIL"

definition matched :: "HopcroftKarp \<Rightarrow> int set" where
  "matched hk = {z. mL hk z \<noteq> NIL}"

text \<open>What holds when a part of the search throws.\<close>

definition err_post :: "HopcroftKarp \<Rightarrow> error \<Rightarrow> HopcroftKarp \<Rightarrow> bool" where
  "err_post hk e hkE \<longleftrightarrow>
     this_graph hkE = this_graph hk \<and> engine_inv hkE \<and> matched hk \<subseteq> matched hkE \<and>
     (EV hk \<longrightarrow> EV hkE) \<and>
     (e = TypeError \<or> e = RangeError)"

text \<open>
  What the loop over the left vertices of one phase has established: \<open>n' - n\<close> pairs were
  added to the matching.
\<close>

definition aug_post :: "HopcroftKarp \<Rightarrow> int \<Rightarrow> HopcroftKarp \<Rightarrow> int \<Rightarrow> bool" where
  "aug_post hk n hk' n' \<longleftrightarrow>
     this_graph hk' = this_graph hk \<and> engine_inv hk' \<and> n \<le> n' \<and>
     matched hk \<subseteq> matched hk' \<and>
     int (card (matched hk')) = int (card (matched hk)) + (n' - n) \<and>
     (EV hk \<longrightarrow> EV hk')"

text \<open>
  What the loop of phases has established when it returns: the state is layered and the
  sink is out of reach.
\<close>

definition ph_post :: "HopcroftKarp \<Rightarrow> int \<Rightarrow> HopcroftKarp \<Rightarrow> int \<Rightarrow> bool" where
  "ph_post hk n hk' n' \<longleftrightarrow>
     aug_post hk n hk' n' \<and> layered hk' \<and> dd hk' (LS hk') = \<infinity>"

subsection \<open>Matched right vertices\<close>

text \<open>The matched right vertices, as \<open>matched\<close> is the set of the matched left ones.\<close>

definition matchedR :: "HopcroftKarp \<Rightarrow> int set" where
  "matchedR hk = {v. mR hk v \<noteq> NIL}"

subsection \<open>Histories of an engine\<close>

text \<open>What a call of \<open>findMaximumMatching\<close> that returns has established.\<close>

definition fmm_post :: "HopcroftKarp \<Rightarrow> Matching \<Rightarrow> HopcroftKarp \<Rightarrow> bool" where
  "fmm_post hk m hk' \<longleftrightarrow>
     matchLeft m = this_matchLeft hk' \<and> matchRight m = this_matchRight hk' \<and>
     size_m m = int (card (matched hk')) - int (card (matched hk)) \<and>
     this_graph hk' = this_graph hk \<and> engine_inv hk' \<and> matched hk \<subseteq> matched hk' \<and>
     (EV hk \<longrightarrow> EV hk') \<and> layered hk' \<and> dd hk' (LS hk') = \<infinity>"

text \<open>
  \<open>after_calls hk0 hk\<close>: the engine is in state \<open>hk\<close> after some calls of
  \<open>findMaximumMatching\<close> (or of \<open>findPerfectMatching\<close>, which changes the state in the same
  way) from state \<open>hk0\<close>, each of which returned or threw. \<open>after_use\<close> also admits that
  the caller replaces the adjacency lists of the graph between calls.
\<close>

inductive after_calls :: "HopcroftKarp \<Rightarrow> HopcroftKarp \<Rightarrow> bool" where
  calls_none: "after_calls hk0 hk0"
| calls_return: "after_calls hk0 hk \<Longrightarrow> findMaximumMatching stack hk = Some (Inr (m, hk')) \<Longrightarrow>
     after_calls hk0 hk'"
| calls_throw: "after_calls hk0 hk \<Longrightarrow> findMaximumMatching stack hk = Some (Inl (e, hk')) \<Longrightarrow>
     after_calls hk0 hk'"

definition set_edges :: "HopcroftKarp \<Rightarrow> int list list \<Rightarrow> HopcroftKarp" where
  "set_edges hk es = hk\<lparr>this_graph := (this_graph hk)\<lparr>edges := es\<rparr>\<rparr>"

inductive after_use :: "HopcroftKarp \<Rightarrow> HopcroftKarp \<Rightarrow> bool" where
  use_none: "after_use hk0 hk0"
| use_return: "after_use hk0 hk \<Longrightarrow> findMaximumMatching stack hk = Some (Inr (m, hk')) \<Longrightarrow>
     after_use hk0 hk'"
| use_throw: "after_use hk0 hk \<Longrightarrow> findMaximumMatching stack hk = Some (Inl (e, hk')) \<Longrightarrow>
     after_use hk0 hk'"
| use_mutate: "after_use hk0 hk \<Longrightarrow> after_use hk0 (set_edges hk es)"

subsection \<open>Matchings of a graph\<close>

text \<open>
  A matching of a graph: a set of pairs \<open>(u, v)\<close> of a left and a right vertex with \<open>v\<close> in
  \<open>edges[u]\<close>, no vertex in two pairs. \<open>pairs m\<close> are the pairs a returned \<open>Matching\<close> holds in
  \<open>matchLeft\<close>, and \<open>count_matched\<close> counts the non-sentinel entries of an array.
\<close>

definition is_matching :: "BipartiteGraph \<Rightarrow> (int \<times> int) set \<Rightarrow> bool" where
  "is_matching g M \<longleftrightarrow>
     (\<forall>(u, v)\<in>M. 0 \<le> u \<and> u < leftSize g \<and> 0 \<le> v \<and> v < rightSize g \<and>
        (\<exists>vs. arr_get (edges g) u = Some vs \<and> v \<in> set vs)) \<and>
     (\<forall>(u, v)\<in>M. \<forall>(u', v')\<in>M. (u = u') = (v = v'))"

definition pairs :: "Matching \<Rightarrow> (int \<times> int) set" where
  "pairs m = {(u, v). arr_get (matchLeft m) u = Some v \<and> v \<noteq> NIL}"

definition count_matched :: "int list \<Rightarrow> int" where
  "count_matched xs = int (length (filter (\<lambda>x. x \<noteq> NIL) xs))"

subsection \<open>The engine's arrays in a store\<close>

text \<open>
  Addresses of number arrays. \<open>cells\<close> gives the contents of the array at an address,
  and the addresses below \<open>fresh\<close> are the allocated ones.
\<close>

type_synonym addr = nat

record store =
  cells :: "addr \<Rightarrow> int list"
  fresh :: addr

text \<open>
  The engine object: \<open>matchLeft\<close> and \<open>matchRight\<close> are references to arrays in the store,
  assigned once by the constructor and written in place by the search. The distance
  array, which no \<open>Matching\<close> is built from, and the graph stay values.
\<close>

record HopcroftKarp_obj =
  graph_of :: BipartiteGraph
  matchLeft_at :: addr
  matchRight_at :: addr
  dist_of :: "enat list"

text \<open>A returned \<open>Matching\<close> object: references to its two arrays, and its size.\<close>

record Matching_obj =
  matchLeft_ref :: addr
  matchRight_ref :: addr
  size_of :: int

text \<open>A new array with the given contents: \<open>new Array(..)\<close>, or a spread copy \<open>[...xs]\<close>.\<close>

definition alloc :: "int list \<Rightarrow> store \<Rightarrow> addr \<times> store" where
  "alloc xs st = (fresh st, st\<lparr>cells := (cells st)(fresh st := xs), fresh := Suc (fresh st)\<rparr>)"

text \<open>An assignment to elements of the array at an address, by anyone who holds it.\<close>

definition write_array :: "store \<Rightarrow> addr \<Rightarrow> int list \<Rightarrow> store" where
  "write_array st a xs = st\<lparr>cells := (cells st)(a := xs)\<rparr>"

text \<open>The state the engine's methods read.\<close>

definition load :: "HopcroftKarp_obj \<Rightarrow> store \<Rightarrow> HopcroftKarp" where
  "load e st =
     \<lparr>this_graph = graph_of e,
      this_matchLeft = cells st (matchLeft_at e),
      this_matchRight = cells st (matchRight_at e),
      this_dist = dist_of e\<rparr>"

text \<open>The writes of a search land in the engine's own arrays.\<close>

definition store_back :: "HopcroftKarp_obj \<Rightarrow> HopcroftKarp \<Rightarrow> store \<Rightarrow> HopcroftKarp_obj \<times> store" where
  "store_back e hk st =
     (e\<lparr>dist_of := this_dist hk\<rparr>,
      write_array (write_array st (matchLeft_at e) (this_matchLeft hk))
        (matchRight_at e) (this_matchRight hk))"

definition new_HopcroftKarp_obj ::
  "BipartiteGraph \<Rightarrow> store \<Rightarrow> error + HopcroftKarp_obj \<times> store"
where
  "new_HopcroftKarp_obj g st =
     (case new_HopcroftKarp g of
        Inl e \<Rightarrow> Inl e
      | Inr hk \<Rightarrow>
          let (aL, st1) = alloc (this_matchLeft hk) st;
              (aR, st2) = alloc (this_matchRight hk) st1
          in Inr (\<lparr>graph_of = g, matchLeft_at = aL, matchRight_at = aR,
                   dist_of = this_dist hk\<rparr>, st2))"

text \<open>
  \<open>findMaximumMatching\<close> on the store: the search of the engine on its arrays, and then the
  object literal of the \<open>return\<close> statement, whose two arrays are the spread copies
  \<open>[...this.matchLeft]\<close> and \<open>[...this.matchRight]\<close>.
\<close>

definition findMaximumMatching_obj ::
  "nat \<Rightarrow> HopcroftKarp_obj \<Rightarrow> store \<Rightarrow>
   ((error \<times> HopcroftKarp_obj \<times> store) + (Matching_obj \<times> HopcroftKarp_obj \<times> store)) option"
where
  "findMaximumMatching_obj stack e st =
     (case findMaximumMatching stack (load e st) of
        None \<Rightarrow> None
      | Some (Inl (err, hkE)) \<Rightarrow> Some (Inl (err, store_back e hkE st))
      | Some (Inr (m, hk')) \<Rightarrow>
          let (e1, st1) = store_back e hk' st;
              (a1, st2) = alloc (cells st1 (matchLeft_at e1)) st1;
              (a2, st3) = alloc (cells st2 (matchRight_at e1)) st2
          in Some (Inr (\<lparr>matchLeft_ref = a1, matchRight_ref = a2, size_of = size_m m\<rparr>,
                        e1, st3)))"

definition store_after ::
  "(error \<times> HopcroftKarp_obj \<times> store) + (Matching_obj \<times> HopcroftKarp_obj \<times> store) \<Rightarrow> store"
where
  "store_after r = (case r of Inl (err, e, st) \<Rightarrow> st | Inr (m, e, st) \<Rightarrow> st)"

section \<open>Properties of the graph builder\<close>

lemma add_edges_spec:
  "length adj = nat l \<Longrightarrow> add_edges l r val skip adj es = Inr adj' \<Longrightarrow>
   length adj' = nat l \<and>
   (\<forall>u. 0 \<le> u \<and> u < l \<longrightarrow>
      adj' ! nat u = adj ! nat u @ map snd (filter (\<lambda>(a, b). a = u \<and> \<not> invalid_edge l r a b) es))"
proof (induction es arbitrary: adj)
  case Nil
  then show ?case by simp
next
  case (Cons e es)
  obtain a b where e: "e = (a, b)" by (cases e)
  show ?case
  proof (cases "invalid_edge l r a b")
    case True
    with Cons.prems e have "add_edges l r val skip adj es = Inr adj'"
      by (simp split: if_splits)
    from Cons.IH[OF Cons.prems(1) this] True e show ?thesis by simp
  next
    case False
    then have ab: "0 \<le> a" "a < l" by (auto simp: invalid_edge_def)
    let ?adj = "adj[nat a := adj ! nat a @ [b]]"
    from Cons.prems e False have run: "add_edges l r val skip ?adj es = Inr adj'" by simp
    have len: "length ?adj = nat l" using Cons.prems(1) by simp
    from Cons.IH[OF len run] have IH: "length adj' = nat l"
      "\<And>u. 0 \<le> u \<Longrightarrow> u < l \<Longrightarrow> adj' ! nat u = ?adj ! nat u @ map snd (filter (\<lambda>(a, b). a = u \<and> \<not> invalid_edge l r a b) es)"
      by auto
    show ?thesis
    proof (intro conjI allI impI)
      show "length adj' = nat l" by (rule IH)
    next
      fix u assume u: "0 \<le> u \<and> u < l"
      have "nat a < length adj" using ab Cons.prems(1) by simp
      then have "?adj ! nat u = (if u = a then adj ! nat a @ [b] else adj ! nat u)"
        using u ab by (auto simp: nth_list_update)
      with IH(2)[of u] u e False
      show "adj' ! nat u = adj ! nat u @ map snd (filter (\<lambda>(a, b). a = u \<and> \<not> invalid_edge l r a b) (e # es))"
        by auto
    qed
  qed
qed

lemma add_edges_ok_iff:
  "(\<exists>adj'. add_edges l r val skip adj es = Inr adj') \<longleftrightarrow>
   \<not> (val \<and> \<not> skip \<and> (\<exists>(u, v)\<in>set es. invalid_edge l r u v))"
  by (induction l r val skip adj es rule: add_edges.induct) auto

lemma add_edges_error:
  "add_edges l r val skip adj es = Inl e \<Longrightarrow>
   \<exists>(u, v)\<in>set es. invalid_edge l r u v \<and> e = InvalidEdge u v l r"
  by (induction l r val skip adj es rule: add_edges.induct) (auto split: if_splits)

text \<open>
  C6. Whenever \<open>createBipartiteGraph\<close> returns a graph, under any options, the graph keeps
  the two sizes, has one adjacency list per left vertex, and \<open>edges[u]\<close> is exactly the
  list of the right indices \<open>v\<close> of the input pairs \<open>(u, v)\<close> with both indices in range,
  in input order and with duplicates kept; so every adjacency entry lies in
  \<open>[0, rightSize)\<close>.
\<close>

theorem createBipartiteGraph_edges:
  assumes "createBipartiteGraph l r es opts = Inr g"
  shows "leftSize g = l \<and> rightSize g = r \<and> length (edges g) = nat l \<and>
    (\<forall>u. 0 \<le> u \<and> u < l \<longrightarrow>
       edges g ! nat u = map snd (filter (\<lambda>(a, b). a = u \<and> 0 \<le> a \<and> a < l \<and> 0 \<le> b \<and> b < r) es)) \<and>
    (\<forall>row\<in>set (edges g). \<forall>v\<in>set row. 0 \<le> v \<and> v < r)"
proof -
  from assms obtain adj where
    run: "add_edges l r (opt_validate opts) (opt_skip opts) (replicate (nat l) []) es = Inr adj"
    and g: "g = \<lparr>leftSize = l, rightSize = r, edges = adj\<rparr>"
    by (auto simp: createBipartiteGraph_def split: if_splits sum.splits)
  have len: "length (replicate (nat l) ([]::int list)) = nat l" by simp
  note spec = add_edges_spec[OF len run]
  have inv: "(\<lambda>(a, b). a = u \<and> \<not> invalid_edge l r a b) = (\<lambda>(a, b). a = u \<and> 0 \<le> a \<and> a < l \<and> 0 \<le> b \<and> b < r)" for u
    by (auto simp: invalid_edge_def fun_eq_iff)
  have row: "adj ! nat u = map snd (filter (\<lambda>(a, b). a = u \<and> 0 \<le> a \<and> a < l \<and> 0 \<le> b \<and> b < r) es)"
    if "0 \<le> u" "u < l" for u
    using spec that inv[of u] by simp
  have rows: "\<forall>row\<in>set adj. \<forall>v\<in>set row. 0 \<le> v \<and> v < r"
  proof (intro ballI)
    fix rw v assume "rw \<in> set adj" "v \<in> set rw"
    then obtain i where i: "i < length adj" "rw = adj ! i" by (auto simp: in_set_conv_nth)
    with spec have "0 \<le> int i" "int i < l" by auto
    from row[OF this] i have "rw = map snd (filter (\<lambda>(a, b). a = int i \<and> 0 \<le> a \<and> a < l \<and> 0 \<le> b \<and> b < r) es)"
      by simp
    with \<open>v \<in> set rw\<close> show "0 \<le> v \<and> v < r" by auto
  qed
  from row have "\<forall>u. 0 \<le> u \<and> u < l \<longrightarrow>
       adj ! nat u = map snd (filter (\<lambda>(a, b). a = u \<and> 0 \<le> a \<and> a < l \<and> 0 \<le> b \<and> b < r) es)"
    by blast
  with spec rows g show ?thesis by simp
qed

theorem createBipartiteGraph_edges_witness:
  "createBipartiteGraph 3 3 [(0,1),(0,2),(1,0),(2,1),(0,1),(5,0),(1,-1)] default_options
     = Inr \<lparr>leftSize = 3, rightSize = 3, edges = [[1, 2, 1], [0], [1]]\<rparr> \<and>
   length (edges \<lparr>leftSize = 3, rightSize = 3, edges = [[1, 2, 1], [0], [1]]\<rparr>) = nat 3 \<and>
   edges \<lparr>leftSize = 3, rightSize = 3, edges = [[1, 2, 1], [0], [1]]\<rparr> ! nat 0 =
     map snd (filter (\<lambda>(a, b). a = 0 \<and> 0 \<le> a \<and> a < 3 \<and> 0 \<le> b \<and> b < 3)
       [(0::int,1::int),(0,2),(1,0),(2,1),(0,1),(5,0),(1,-1)])"
proof -
  have h: "createBipartiteGraph 3 3 [(0,1),(0,2),(1,0),(2,1),(0,1),(5,0),(1,-1)] default_options
     = Inr \<lparr>leftSize = 3, rightSize = 3, edges = [[1, 2, 1], [0], [1]]\<rparr>"
    by code_simp
  note c = createBipartiteGraph_edges[OF h]
  from c have len:
    "length (edges \<lparr>leftSize = 3, rightSize = 3, edges = [[1, 2, 1], [0], [1]]\<rparr>) = nat 3"
    by (elim conjE)
  from c have "\<forall>u. 0 \<le> u \<and> u < 3 \<longrightarrow>
      edges \<lparr>leftSize = 3, rightSize = 3, edges = [[1, 2, 1], [0], [1]]\<rparr> ! nat u =
      map snd (filter (\<lambda>(a, b). a = u \<and> 0 \<le> a \<and> a < 3 \<and> 0 \<le> b \<and> b < 3)
        [(0,1),(0,2),(1,0),(2,1),(0,1),(5,0),(1,-1)])"
    by (elim conjE)
  from this[rule_format, of 0]
  have row: "edges \<lparr>leftSize = 3, rightSize = 3, edges = [[1, 2, 1], [0], [1]]\<rparr> ! nat 0 =
      map snd (filter (\<lambda>(a, b). a = 0 \<and> 0 \<le> a \<and> a < 3 \<and> 0 \<le> b \<and> b < 3)
        [(0::int,1::int),(0,2),(1,0),(2,1),(0,1),(5,0),(1,-1)])"
    by simp
  from h len row show ?thesis by (intro conjI)
qed

text \<open>
  C5, as amended. \<open>createBipartiteGraph\<close> fails with InvalidPartitionSize exactly when
  validation is enabled and \<open>leftSize\<close> or \<open>rightSize\<close> is negative; the error names an
  offending parameter and its value, and the failure occurs before any edge is
  processed: it is the same for every edge list. It fails with InvalidEdge exactly when
  validation is enabled, neither size is negative, \<open>leftSize\<close> is at most \<open>2^32 - 1\<close>,
  \<open>skipInvalidEdges\<close> is false and some edge has an index out of range. It fails with the
  runtime's RangeError exactly when no size check fails and \<open>leftSize\<close> exceeds \<open>2^32 - 1\<close>.
  In every other case it returns a graph.
\<close>

theorem createBipartiteGraph_errors:
  "((\<exists>p x. createBipartiteGraph l r es opts = Inl (InvalidPartitionSize p x)) \<longleftrightarrow>
      opt_validate opts \<and> (l < 0 \<or> r < 0)) \<and>
   (\<forall>p x. createBipartiteGraph l r es opts = Inl (InvalidPartitionSize p x) \<longrightarrow>
      (p = ''leftSize'' \<and> x = l \<and> l < 0) \<or> (p = ''rightSize'' \<and> x = r \<and> r < 0)) \<and>
   (opt_validate opts \<and> (l < 0 \<or> r < 0) \<longrightarrow>
      (\<forall>es'. createBipartiteGraph l r es' opts = createBipartiteGraph l r es opts)) \<and>
   ((\<exists>u v a b. createBipartiteGraph l r es opts = Inl (InvalidEdge u v a b)) \<longleftrightarrow>
      opt_validate opts \<and> 0 \<le> l \<and> 0 \<le> r \<and> l \<le> 4294967295 \<and> \<not> opt_skip opts \<and>
      (\<exists>(u, v)\<in>set es. u < 0 \<or> u \<ge> l \<or> v < 0 \<or> v \<ge> r)) \<and>
   (createBipartiteGraph l r es opts = Inl RangeError \<longleftrightarrow>
      \<not> (opt_validate opts \<and> (l < 0 \<or> r < 0)) \<and> l > 4294967295) \<and>
   ((\<exists>g. createBipartiteGraph l r es opts = Inr g) \<longleftrightarrow>
      \<not> (opt_validate opts \<and> (l < 0 \<or> r < 0)) \<and> l \<le> 4294967295 \<and>
      \<not> (opt_validate opts \<and> \<not> opt_skip opts \<and>
           (\<exists>(u, v)\<in>set es. u < 0 \<or> u \<ge> l \<or> v < 0 \<or> v \<ge> r))) \<and>
   createBipartiteGraph l r es opts \<noteq> Inl TypeError"
proof -
  define run where
    "run = add_edges l r (opt_validate opts) (opt_skip opts) (replicate (nat l) []) es"
  define bad where "bad \<longleftrightarrow> (\<exists>(u, v)\<in>set es. u < 0 \<or> u \<ge> l \<or> v < 0 \<or> v \<ge> r)"
  define neg where "neg \<longleftrightarrow> opt_validate opts \<and> (l < 0 \<or> r < 0)"
  define big where "big \<longleftrightarrow> l > 4294967295"
  have bad: "bad \<longleftrightarrow> (\<exists>(u, v)\<in>set es. invalid_edge l r u v)"
    by (simp add: invalid_edge_def bad_def)
  have ok: "(\<exists>adj. run = Inr adj) \<longleftrightarrow> \<not> (opt_validate opts \<and> \<not> opt_skip opts \<and> bad)"
    unfolding bad run_def by (rule add_edges_ok_iff)
  have err: "\<exists>u v. e = InvalidEdge u v l r" if "run = Inl e" for e
    using add_edges_error[OF that[unfolded run_def]] by auto
  have res: "createBipartiteGraph l r es opts =
      (if opt_validate opts \<and> l < 0 then Inl (InvalidPartitionSize ''leftSize'' l)
       else if opt_validate opts \<and> r < 0 then Inl (InvalidPartitionSize ''rightSize'' r)
       else if big then Inl RangeError
       else (case run of Inl e \<Rightarrow> Inl e
             | Inr adj \<Rightarrow> Inr \<lparr>leftSize = l, rightSize = r, edges = adj\<rparr>))"
    by (simp add: createBipartiteGraph_def run_def big_def max_array_length_def)
  have 1: "(\<exists>p x. createBipartiteGraph l r es opts = Inl (InvalidPartitionSize p x)) \<longleftrightarrow> neg"
  proof (cases run)
    case (Inl e)
    from err[OF Inl] obtain u v where "e = InvalidEdge u v l r" by blast
    with Inl show ?thesis by (simp add: res neg_def)
  next
    case (Inr adj)
    then show ?thesis by (simp add: res neg_def)
  qed
  have 2: "\<forall>p x. createBipartiteGraph l r es opts = Inl (InvalidPartitionSize p x) \<longrightarrow>
      (p = ''leftSize'' \<and> x = l \<and> l < 0) \<or> (p = ''rightSize'' \<and> x = r \<and> r < 0)"
  proof (cases run)
    case (Inl e)
    from err[OF Inl] obtain u v where "e = InvalidEdge u v l r" by blast
    with Inl show ?thesis by (simp add: res)
  next
    case (Inr adj)
    then show ?thesis by (simp add: res)
  qed
  have 3: "opt_validate opts \<and> (l < 0 \<or> r < 0) \<longrightarrow>
      (\<forall>es'. createBipartiteGraph l r es' opts = createBipartiteGraph l r es opts)"
    by (simp add: createBipartiteGraph_def)
  have 4: "(\<exists>u v a b. createBipartiteGraph l r es opts = Inl (InvalidEdge u v a b)) \<longleftrightarrow>
      opt_validate opts \<and> 0 \<le> l \<and> 0 \<le> r \<and> \<not> big \<and> \<not> opt_skip opts \<and> bad"
  proof (cases run)
    case (Inl e)
    from err[OF Inl] obtain u v where "e = InvalidEdge u v l r" by blast
    with Inl ok show ?thesis by (simp add: res)
  next
    case (Inr adj)
    with ok show ?thesis by (simp add: res)
  qed
  have 5: "createBipartiteGraph l r es opts = Inl RangeError \<longleftrightarrow> \<not> neg \<and> big"
  proof (cases run)
    case (Inl e)
    from err[OF Inl] obtain u v where "e = InvalidEdge u v l r" by blast
    with Inl show ?thesis by (simp add: res neg_def)
  next
    case (Inr adj)
    then show ?thesis by (simp add: res neg_def)
  qed
  have 6: "(\<exists>g. createBipartiteGraph l r es opts = Inr g) \<longleftrightarrow>
      \<not> neg \<and> \<not> big \<and> \<not> (opt_validate opts \<and> \<not> opt_skip opts \<and> bad)"
  proof (cases run)
    case (Inl e)
    with ok show ?thesis by (simp add: res neg_def)
  next
    case (Inr adj)
    with ok show ?thesis by (simp add: res neg_def)
  qed
  have 7: "createBipartiteGraph l r es opts \<noteq> Inl TypeError"
  proof (cases run)
    case (Inl e)
    from err[OF Inl] obtain u v where "e = InvalidEdge u v l r" by blast
    with Inl show ?thesis by (simp add: res)
  next
    case (Inr adj)
    then show ?thesis by (simp add: res)
  qed
  from 1 2 3 4 5 6 7 show ?thesis unfolding bad_def neg_def big_def not_less by blast
qed

theorem createBipartiteGraph_errors_witness:
  "createBipartiteGraph (-1) 3 [(0, 0)] default_options
     = Inl (InvalidPartitionSize ''leftSize'' (-1)) \<and>
   createBipartiteGraph (-1) 3 [(7, 7), (0, 0)] default_options
     = createBipartiteGraph (-1) 3 [(0, 0)] default_options \<and>
   (\<exists>p x. createBipartiteGraph 3 (-1) [(0, 0)] default_options
     = Inl (InvalidPartitionSize p x)) \<and>
   (\<exists>u v a b. createBipartiteGraph 2 2 [(0, 0), (0, -1)]
           \<lparr>validateInput = None, skipInvalidEdges = Some False\<rparr> = Inl (InvalidEdge u v a b)) \<and>
   createBipartiteGraph 4294967296 0 [] default_options = Inl RangeError \<and>
   (\<exists>g. createBipartiteGraph 2 2 [(0, 0), (0, -1)] default_options = Inr g) \<and>
   (\<exists>g. createBipartiteGraph (-1) (-1) [(0, 0)]
           \<lparr>validateInput = Some False, skipInvalidEdges = None\<rparr> = Inr g)"
proof -
  let ?strict = "\<lparr>validateInput = None, skipInvalidEdges = Some False\<rparr>"
  let ?off = "\<lparr>validateInput = Some False, skipInvalidEdges = None\<rparr>"
  have v: "opt_validate default_options" "opt_skip default_options"
    "opt_validate ?strict" "\<not> opt_skip ?strict" "\<not> opt_validate ?off"
    by (simp_all add: opt_validate_def opt_skip_def default_options_def)
  note a = createBipartiteGraph_errors[of "-1" 3 "[(0,0)]" default_options]
  from a have a1: "(\<exists>p x. createBipartiteGraph (-1) 3 [(0, 0)] default_options =
      Inl (InvalidPartitionSize p x)) \<longleftrightarrow> opt_validate default_options \<and> ((-1::int) < 0 \<or> (3::int) < 0)"
    by (elim conjE)
  from a have a2: "\<forall>p x. createBipartiteGraph (-1) 3 [(0, 0)] default_options =
      Inl (InvalidPartitionSize p x) \<longrightarrow>
      (p = ''leftSize'' \<and> x = -1 \<and> (-1::int) < 0) \<or> (p = ''rightSize'' \<and> x = 3 \<and> (3::int) < 0)"
    by (elim conjE)
  from a have a3: "opt_validate default_options \<and> ((-1::int) < 0 \<or> (3::int) < 0) \<longrightarrow>
      (\<forall>es'. createBipartiteGraph (-1) 3 es' default_options =
         createBipartiteGraph (-1) 3 [(0, 0)] default_options)"
    by (elim conjE)
  from a1 v obtain p x where
    px: "createBipartiteGraph (-1) 3 [(0, 0)] default_options = Inl (InvalidPartitionSize p x)"
    by auto
  from a2[rule_format, OF px] have "p = ''leftSize'' \<and> x = -1" by simp
  with px have 1: "createBipartiteGraph (-1) 3 [(0, 0)] default_options
     = Inl (InvalidPartitionSize ''leftSize'' (-1))" by simp
  from v have "opt_validate default_options \<and> ((-1::int) < 0 \<or> (3::int) < 0)" by simp
  from a3[rule_format, OF this, of "[(7, 7), (0, 0)]"]
  have 2: "createBipartiteGraph (-1) 3 [(7, 7), (0, 0)] default_options
     = createBipartiteGraph (-1) 3 [(0, 0)] default_options" .
  from createBipartiteGraph_errors[of 3 "-1" "[(0,0)]" default_options] v
  have 3: "\<exists>p x. createBipartiteGraph 3 (-1) [(0, 0)] default_options
     = Inl (InvalidPartitionSize p x)" by simp
  from createBipartiteGraph_errors[of 2 2 "[(0, 0), (0, -1)]" ?strict] v
  have 4: "\<exists>u v a b. createBipartiteGraph 2 2 [(0, 0), (0, -1)] ?strict = Inl (InvalidEdge u v a b)"
    by simp
  from createBipartiteGraph_errors[of 4294967296 0 "[]" default_options] v
  have 5: "createBipartiteGraph 4294967296 0 [] default_options = Inl RangeError" by simp
  from createBipartiteGraph_errors[of 2 2 "[(0, 0), (0, -1)]" default_options] v
  have 6: "\<exists>g. createBipartiteGraph 2 2 [(0, 0), (0, -1)] default_options = Inr g" by simp
  from createBipartiteGraph_errors[of "-1" "-1" "[(0, 0)]" ?off] v
  have 7: "\<exists>g. createBipartiteGraph (-1) (-1) [(0, 0)] ?off = Inr g" by simp
  from 1 2 3 4 5 6 7 show ?thesis by blast
qed

text \<open>
  C5 as stated fails at two inputs. With validation on and \<open>skipInvalidEdges\<close> off,
  \<open>createBipartiteGraph(-1, 3, [[0, 0]])\<close> meets the stated condition of InvalidEdge, but
  the size check comes first and the failure is InvalidPartitionSize. And
  \<open>createBipartiteGraph(4294967296, 0, [])\<close> meets neither stated failure condition, yet
  no graph is returned: allocating the rows is a RangeError.
\<close>

theorem createBipartiteGraph_errors_counterexample:
  "\<not> ((\<exists>u v a b. createBipartiteGraph (-1) 3 [(0, 0)]
             \<lparr>validateInput = Some True, skipInvalidEdges = Some False\<rparr> = Inl (InvalidEdge u v a b)) \<longleftrightarrow>
       (opt_validate \<lparr>validateInput = Some True, skipInvalidEdges = Some False\<rparr> \<and>
        \<not> opt_skip \<lparr>validateInput = Some True, skipInvalidEdges = Some False\<rparr> \<and>
        (\<exists>(u, v)\<in>set [(0::int, 0::int)]. u < 0 \<or> u \<ge> -1 \<or> v < 0 \<or> v \<ge> 3))) \<and>
   \<not> ((\<exists>g. createBipartiteGraph 4294967296 0 [] default_options = Inr g) \<longleftrightarrow>
       \<not> (opt_validate default_options \<and> ((4294967296::int) < 0 \<or> (0::int) < 0)) \<and>
       \<not> (opt_validate default_options \<and> \<not> opt_skip default_options \<and>
            (\<exists>(u, v)\<in>set ([]::(int \<times> int) list). u < 0 \<or> u \<ge> 4294967296 \<or> v < 0 \<or> v \<ge> 0)))"
  by (simp add: createBipartiteGraph_def opt_validate_def opt_skip_def default_options_def
      max_array_length_def)

section \<open>Reading the engine state\<close>

declare not_infinity_eq [simp del]

lemma dfs_loop_Nil: "dfs_loop s hk u [] = Inr (kill hk u, False)"
  by (simp add: kill_def)

lemma dfs_loop_Cons:
  "dfs_loop s hk u (v # vs) =
     (case step hk u v of
        None \<Rightarrow> dfs_loop s hk u vs
      | Some x \<Rightarrow>
          (case s of
             0 \<Rightarrow> Inl (RangeError, hk)
           | Suc s' \<Rightarrow>
               if x = LS hk then Inr (flip hk u v, True)
               else
                 (case arr_get (edges (this_graph hk)) x of
                    None \<Rightarrow> Inl (TypeError, hk)
                  | Some ns \<Rightarrow>
                      (case dfs_loop s' hk x ns of
                         Inl e \<Rightarrow> Inl e
                       | Inr (hk', ok) \<Rightarrow>
                           if ok then Inr (flip hk' u v, True)
                           else dfs_loop s hk' u vs))))"
  by (simp add: step_def nxt_def LS_def RS_def Let_def split: option.splits nat.splits)

declare dfs_loop.simps [simp del]

lemma DFS_complete_aux:
  "\<forall>hk u vs hk' b. dfs_loop s hk u vs = Inr (hk', b) \<longrightarrow> DFS hk u vs hk' b"
proof (induction s)
  case 0
  show ?case
  proof (intro allI impI)
    fix hk u vs hk' b
    assume "dfs_loop 0 hk u vs = Inr (hk', b)"
    then show "DFS hk u vs hk' b"
    proof (induction vs)
      case Nil
      then show ?case by (auto simp: dfs_loop_Nil intro: DFS_Nil)
    next
      case (Cons v vs)
      show ?case
      proof (cases "step hk u v")
        case None
        with Cons.prems have "dfs_loop 0 hk u vs = Inr (hk', b)" by (simp add: dfs_loop_Cons)
        from DFS_Skip[OF None Cons.IH[OF this]] show ?thesis .
      next
        case (Some x)
        with Cons.prems show ?thesis by (simp add: dfs_loop_Cons)
      qed
    qed
  qed
next
  case (Suc s)
  show ?case
  proof (intro allI impI)
    fix hk u vs hk' b
    assume "dfs_loop (Suc s) hk u vs = Inr (hk', b)"
    then show "DFS hk u vs hk' b"
    proof (induction vs arbitrary: hk)
      case Nil
      then show ?case by (auto simp: dfs_loop_Nil intro: DFS_Nil)
    next
      case (Cons v vs)
      show ?case
      proof (cases "step hk u v")
        case None
        with Cons.prems have "dfs_loop (Suc s) hk u vs = Inr (hk', b)"
          by (simp add: dfs_loop_Cons)
        from DFS_Skip[OF None Cons.IH[OF this]] show ?thesis .
      next
        case (Some x)
        show ?thesis
        proof (cases "x = LS hk")
          case True
          with Some Cons.prems have "hk' = flip hk u v" "b" by (auto simp: dfs_loop_Cons)
          with DFS_Sink[of hk u v vs] Some True show ?thesis by simp
        next
          case False
          show ?thesis
          proof (cases "arr_get (edges (this_graph hk)) x")
            case None
            with Some False Cons.prems show ?thesis by (simp add: dfs_loop_Cons)
          next
            case ns: (Some ns)
            show ?thesis
            proof (cases "dfs_loop s hk x ns")
              case (Inl e)
              with Some False ns Cons.prems show ?thesis by (simp add: dfs_loop_Cons)
            next
              case (Inr r)
              obtain hk1 ok where r: "r = (hk1, ok)" by (cases r)
              from Suc.IH Inr r have inner: "DFS hk x ns hk1 ok" by blast
              show ?thesis
              proof (cases ok)
                case True
                with Some False ns Inr r Cons.prems have "hk' = flip hk1 u v" "b"
                  by (auto simp: dfs_loop_Cons)
                with DFS_Succ[OF Some False ns] inner True show ?thesis by simp
              next
                case f: False
                with Some False ns Inr r Cons.prems
                have "dfs_loop (Suc s) hk1 u vs = Inr (hk', b)" by (simp add: dfs_loop_Cons)
                from Cons.IH[OF this] have "DFS hk1 u vs hk' b" .
                with DFS_Fail[OF Some False ns] inner f show ?thesis by simp
              qed
            qed
          qed
        qed
      qed
    qed
  qed
qed

lemma DFS_complete: "dfs_loop s hk u vs = Inr (hk', b) \<Longrightarrow> DFS hk u vs hk' b"
  using DFS_complete_aux by blast

section \<open>Shape of the engine state\<close>

lemma NIL_neg: "NIL < 0"
  by (simp add: NIL_def)

lemma arr_get_Some_iff: "arr_get xs i = Some y \<longleftrightarrow> 0 \<le> i \<and> i < int (length xs) \<and> y = xs ! nat i"
  by (auto simp: arr_get_def)

lemma arr_get_None_iff: "arr_get xs i = None \<longleftrightarrow> \<not> (0 \<le> i \<and> i < int (length xs))"
  by (auto simp: arr_get_def)

lemma arr_get_update:
  "0 \<le> i \<Longrightarrow> i < int (length xs) \<Longrightarrow>
   arr_get (xs[nat i := y]) j = (if j = i then Some y else arr_get xs j)"
  by (auto simp: arr_get_def nth_list_update)

lemma arr_get_mL: "shape hk \<Longrightarrow> 0 \<le> u \<Longrightarrow> u < LS hk \<Longrightarrow> arr_get (this_matchLeft hk) u = Some (mL hk u)"
  by (simp add: shape_def mL_def arr_get_def)

lemma arr_get_mR: "shape hk \<Longrightarrow> 0 \<le> v \<Longrightarrow> v < RS hk \<Longrightarrow> arr_get (this_matchRight hk) v = Some (mR hk v)"
  by (simp add: shape_def mR_def arr_get_def)

lemma arr_get_dd: "shape hk \<Longrightarrow> 0 \<le> x \<Longrightarrow> x \<le> LS hk \<Longrightarrow> arr_get (this_dist hk) x = Some (dd hk x)"
  by (simp add: shape_def dd_def arr_get_def)

lemma arr_get_row: "rows hk \<Longrightarrow> 0 \<le> u \<Longrightarrow> u < LS hk \<Longrightarrow> arr_get (edges (this_graph hk)) u = Some (row hk u)"
  by (auto simp: rows_def row_def arr_get_def LS_def)

lemma arr_get_row_eq: "arr_get (edges (this_graph hk)) u = Some ns \<Longrightarrow> row hk u = ns"
  by (simp add: row_def)

lemma mL_out: "shape hk \<Longrightarrow> \<not> (0 \<le> u \<and> u < LS hk) \<Longrightarrow> mL hk u = NIL"
  by (auto simp: shape_def mL_def arr_get_def)

lemma mR_out: "shape hk \<Longrightarrow> \<not> (0 \<le> v \<and> v < RS hk) \<Longrightarrow> mR hk v = NIL"
  by (auto simp: shape_def mR_def arr_get_def)

lemma dd_out: "shape hk \<Longrightarrow> \<not> (0 \<le> x \<and> x \<le> LS hk) \<Longrightarrow> dd hk x = \<infinity>"
  by (auto simp: shape_def dd_def arr_get_def)

lemma dist_is_succ_dd:
  "shape hk \<Longrightarrow> 0 \<le> x \<Longrightarrow> x \<le> LS hk \<Longrightarrow> 0 \<le> u \<Longrightarrow> u \<le> LS hk \<Longrightarrow>
   dist_is_succ (this_dist hk) x u \<longleftrightarrow> dd hk x = dd hk u + 1"
  by (simp add: dist_is_succ_def arr_get_dd)

lemma dist_less_dd:
  "shape hk \<Longrightarrow> 0 \<le> x \<Longrightarrow> x \<le> LS hk \<Longrightarrow> 0 \<le> u \<Longrightarrow> u \<le> LS hk \<Longrightarrow>
   dist_less (this_dist hk) x u \<longleftrightarrow> dd hk x < dd hk u"
  by (simp add: dist_less_def arr_get_dd)

subsection \<open>flip and kill\<close>

lemma flip_fields [simp]:
  "this_graph (flip hk u v) = this_graph hk"
  "this_dist (flip hk u v) = this_dist hk"
  "LS (flip hk u v) = LS hk" "RS (flip hk u v) = RS hk"
  "dd (flip hk u v) = dd hk" "row (flip hk u v) = row hk"
  by (simp_all add: flip_def LS_def RS_def dd_def row_def fun_eq_iff)

lemma kill_fields [simp]:
  "this_graph (kill hk u) = this_graph hk"
  "this_matchLeft (kill hk u) = this_matchLeft hk"
  "this_matchRight (kill hk u) = this_matchRight hk"
  "LS (kill hk u) = LS hk" "RS (kill hk u) = RS hk"
  "mL (kill hk u) = mL hk" "mR (kill hk u) = mR hk" "row (kill hk u) = row hk"
  by (simp_all add: kill_def LS_def RS_def mL_def mR_def row_def fun_eq_iff)

lemma shape_flip [simp]: "shape (flip hk u v) = shape hk"
  by (simp add: shape_def) (simp add: flip_def)

lemma shape_kill [simp]: "shape (kill hk u) = shape hk"
  by (simp add: shape_def) (simp add: kill_def)

lemma rows_flip [simp]: "rows (flip hk u v) = rows hk"
  by (simp add: rows_def)

lemma rows_kill [simp]: "rows (kill hk u) = rows hk"
  by (simp add: rows_def)

lemma mL_flip: "shape hk \<Longrightarrow> 0 \<le> u \<Longrightarrow> u < LS hk \<Longrightarrow> mL (flip hk u v) = (mL hk)(u := v)"
  by (auto simp: fun_eq_iff mL_def flip_def shape_def arr_get_def nth_list_update)

lemma mR_flip: "shape hk \<Longrightarrow> 0 \<le> v \<Longrightarrow> v < RS hk \<Longrightarrow> mR (flip hk u v) = (mR hk)(v := u)"
  by (auto simp: fun_eq_iff mR_def flip_def shape_def arr_get_def nth_list_update)

lemma dd_kill: "shape hk \<Longrightarrow> 0 \<le> u \<Longrightarrow> u \<le> LS hk \<Longrightarrow> dd (kill hk u) = (dd hk)(u := \<infinity>)"
  by (auto simp: fun_eq_iff dd_def kill_def shape_def arr_get_def nth_list_update)

section \<open>The matching invariant\<close>

lemma dpost_commonD:
  assumes "dpost hk u hk' b"
  shows "this_graph hk' = this_graph hk" "shape hk'" "LS hk' = LS hk" "RS hk' = RS hk"
    "row hk' = row hk"
    "\<And>x. dd hk' x = dd hk x \<or>
          (dd hk' x = \<infinity> \<and> 0 \<le> x \<and> x < LS hk \<and> dd hk u \<le> dd hk x \<and>
           (x = u \<or> mL hk x \<noteq> NIL))"
  using assms by (simp_all add: dpost_def LS_def RS_def row_def fun_eq_iff)

lemma dpost_FalseD:
  assumes "dpost hk u hk' False"
  shows "this_matchLeft hk' = this_matchLeft hk" "this_matchRight hk' = this_matchRight hk"
    "mL hk' = mL hk" "mR hk' = mR hk"
  using assms by (simp_all add: dpost_def mL_def mR_def fun_eq_iff)

lemma dpost_TrueD:
  assumes "dpost hk u hk' True"
  shows "LC hk'" "RC hk' (mL hk u)" "mL hk' u \<noteq> NIL"
    "\<And>x. x \<noteq> u \<Longrightarrow> (mL hk' x = NIL \<longleftrightarrow> mL hk x = NIL)"
    "\<And>x. mL hk' x \<noteq> mL hk x \<Longrightarrow> dd hk u \<le> dd hk x \<and> dd hk x \<noteq> \<infinity>"
    "\<And>y. mR hk' y \<noteq> mR hk y \<Longrightarrow> mR hk y = NIL \<or> dd hk u < dd hk (mR hk y)"
    "\<And>x. mL hk u \<noteq> NIL \<Longrightarrow> mL hk' x \<noteq> mL hk u"
  using assms by (simp_all add: dpost_def)

lemma mR_range: "shape hk \<Longrightarrow> RC hk w \<Longrightarrow> mR hk y = NIL \<or> (0 \<le> mR hk y \<and> mR hk y < LS hk)"
  by (cases "0 \<le> y \<and> y < RS hk") (auto simp: RC_def mR_out)

lemma nxt_range:
  "shape hk \<Longrightarrow> RC hk w \<Longrightarrow> 0 \<le> nxt hk (mR hk y) \<and> nxt hk (mR hk y) \<le> LS hk"
  using mR_range[of hk w y] by (auto simp: nxt_def shape_def)

lemma step_Some_iff:
  assumes "shape hk" "RC hk w" "0 \<le> u" "u < LS hk"
  shows "step hk u v = Some x \<longleftrightarrow>
    0 \<le> v \<and> v < RS hk \<and> x = nxt hk (mR hk v) \<and> dd hk x = dd hk u + 1"
proof (cases "0 \<le> v \<and> v < RS hk")
  case False
  then show ?thesis by (auto simp: step_def)
next
  case True
  note r = nxt_range[OF assms(1,2), of v]
  have "dist_is_succ (this_dist hk) (nxt hk (mR hk v)) u \<longleftrightarrow>
        dd hk (nxt hk (mR hk v)) = dd hk u + 1"
    using r assms by (intro dist_is_succ_dd) auto
  with True assms show ?thesis
    by (auto simp: step_def arr_get_mR)
qed

lemma plus1_neq: "(a::enat) \<noteq> \<infinity> \<Longrightarrow> a + 1 \<noteq> a"
  by (cases a) (auto simp: one_enat_def)

lemma plus1_less: "(a::enat) \<noteq> \<infinity> \<Longrightarrow> a < a + 1"
  by (cases a) (auto simp: one_enat_def)

lemma plus1_fin: "(a::enat) \<noteq> \<infinity> \<Longrightarrow> a + 1 \<noteq> \<infinity>"
  by (cases a) (auto simp: one_enat_def)

lemma dpost_Nil: "dfs_pre hk u \<Longrightarrow> dpost hk u (kill hk u) False"
  by (auto simp: dpost_def dfs_pre_def dd_kill)

lemma same_matching:
  assumes "this_graph hk' = this_graph hk" "this_matchLeft hk' = this_matchLeft hk"
    "this_matchRight hk' = this_matchRight hk"
  shows "LS hk' = LS hk" "RS hk' = RS hk" "mL hk' = mL hk" "mR hk' = mR hk"
    "row hk' = row hk" "LC hk' = LC hk" "RC hk' w = RC hk w"
  using assms by (simp_all add: LS_def RS_def mL_def mR_def row_def LC_def RC_def fun_eq_iff)

lemma step_pre:
  assumes pre: "dfs_pre hk u" and st: "step hk u v = Some x" and x: "x \<noteq> LS hk"
  shows "dfs_pre hk x \<and> x = mR hk v \<and> mL hk x = v \<and> dd hk x = dd hk u + 1 \<and> 0 \<le> v \<and> v < RS hk"
proof -
  from pre have sh: "shape hk" and rc: "RC hk NIL" and u: "0 \<le> u" "u < LS hk"
    and fin: "dd hk u \<noteq> \<infinity>" and lc: "LC hk"
    by (auto simp: dfs_pre_def)
  from st step_Some_iff[OF sh rc u] have v: "0 \<le> v" "v < RS hk"
    and xe: "x = nxt hk (mR hk v)" and d: "dd hk x = dd hk u + 1" by auto
  from xe x have xm: "x = mR hk v" and nn: "mR hk v \<noteq> NIL" by (auto simp: nxt_def)
  from rc v nn have r: "0 \<le> mR hk v" "mR hk v < LS hk" "mL hk (mR hk v) = v"
    using NIL_neg by (auto simp: RC_def)
  from d fin have "dd hk x \<noteq> \<infinity>" by (simp add: plus1_fin)
  with sh lc rc r xm have "dfs_pre hk x" by (simp add: dfs_pre_def)
  with xm r d v show ?thesis by blast
qed

lemma fail_pre:
  assumes pre: "dfs_pre hk u" and st: "step hk u v = Some x" and x: "x \<noteq> LS hk"
    and inner: "dpost hk x hk1 False"
  shows "dfs_pre hk1 u \<and> dd hk1 u = dd hk u"
proof -
  from step_pre[OF pre st x] have d: "dd hk x = dd hk u + 1" by blast
  from pre have fin: "dd hk u \<noteq> \<infinity>" by (simp add: dfs_pre_def)
  note g = dpost_commonD(1)[OF inner] and sh = dpost_commonD(2)[OF inner]
    and l = dpost_FalseD(1)[OF inner] and r = dpost_FalseD(2)[OF inner]
  from dpost_commonD(6)[OF inner, of u] have fr: "dd hk1 u = dd hk u \<or> dd hk x \<le> dd hk u"
    by blast
  from d fin have "\<not> dd hk x \<le> dd hk u" using plus1_less[OF fin] by simp
  with fr have e: "dd hk1 u = dd hk u" by simp
  note sm = same_matching[OF g l r]
  from pre sm sh e show ?thesis by (simp add: dfs_pre_def)
qed

lemma dpost_Sink:
  assumes pre: "dfs_pre hk u" and st: "step hk u v = Some (LS hk)"
  shows "dpost hk u (flip hk u v) True"
proof -
  from pre have sh: "shape hk" and rc: "RC hk NIL" and u: "0 \<le> u" "u < LS hk"
    and fin: "dd hk u \<noteq> \<infinity>" and lc: "LC hk"
    by (auto simp: dfs_pre_def)
  from st step_Some_iff[OF sh rc u] have v: "0 \<le> v" "v < RS hk"
    and xe: "LS hk = nxt hk (mR hk v)" by auto
  from xe mR_range[OF sh rc, of v] have free: "mR hk v = NIL"
    by (cases "mR hk v = NIL") (auto simp: nxt_def)
  define w where "w = mL hk u"
  have ml: "mL (flip hk u v) = (mL hk)(u := v)" by (rule mL_flip[OF sh u])
  have mr: "mR (flip hk u v) = (mR hk)(v := u)" by (rule mR_flip[OF sh v])
  have vN: "v \<noteq> NIL" using v NIL_neg by simp
  have uN: "u \<noteq> NIL" using u NIL_neg by simp
  have wv: "w \<noteq> v"
  proof
    assume "w = v"
    with lc u vN have "mR hk v = u" by (auto simp: LC_def w_def)
    with free uN show False by simp
  qed
  have lcw: "mR hk w = u" if "w \<noteq> NIL" using lc u that by (auto simp: LC_def w_def)
  have LC': "LC (flip hk u v)"
    unfolding LC_def
  proof (intro allI impI)
    fix x assume x: "0 \<le> x \<and> x < LS (flip hk u v)"
    show "mL (flip hk u v) x = NIL \<or>
         0 \<le> mL (flip hk u v) x \<and> mL (flip hk u v) x < RS (flip hk u v) \<and>
         mR (flip hk u v) (mL (flip hk u v) x) = x"
    proof (cases "x = u")
      case True
      with v show ?thesis by (simp add: ml mr)
    next
      case False
      from lc x have c: "mL hk x = NIL \<or> (0 \<le> mL hk x \<and> mL hk x < RS hk \<and> mR hk (mL hk x) = x)"
        by (simp add: LC_def)
      show ?thesis
      proof (cases "mL hk x = NIL")
        case True
        with False show ?thesis by (simp add: ml)
      next
        case nn: False
        with c have c': "0 \<le> mL hk x" "mL hk x < RS hk" "mR hk (mL hk x) = x" by auto
        have "mL hk x \<noteq> v" using c'(3) free x NIL_neg by auto
        with False c' show ?thesis by (simp add: ml mr)
      qed
    qed
  qed
  have RC': "RC (flip hk u v) w"
    unfolding RC_def
  proof (intro allI impI)
    fix y assume y: "0 \<le> y \<and> y < RS (flip hk u v)"
    show "mR (flip hk u v) y = NIL \<or>
         0 \<le> mR (flip hk u v) y \<and> mR (flip hk u v) y < LS (flip hk u v) \<and>
         (y \<noteq> w \<longrightarrow> mL (flip hk u v) (mR (flip hk u v) y) = y)"
    proof (cases "y = v")
      case True
      with u show ?thesis by (simp add: ml mr)
    next
      case False
      from rc y have c: "mR hk y = NIL \<or> (0 \<le> mR hk y \<and> mR hk y < LS hk \<and> mL hk (mR hk y) = y)"
        using NIL_neg by (auto simp: RC_def)
      show ?thesis
      proof (cases "mR hk y = NIL")
        case True
        with False show ?thesis by (simp add: mr)
      next
        case nn: False
        with c have c': "0 \<le> mR hk y" "mR hk y < LS hk" "mL hk (mR hk y) = y" by auto
        have "y \<noteq> w \<longrightarrow> mR hk y \<noteq> u" using c'(3) by (auto simp: w_def)
        with False c' show ?thesis by (auto simp: ml mr)
      qed
    qed
  qed
  have nw: "\<forall>x. mL (flip hk u v) x \<noteq> w" if "w \<noteq> NIL"
  proof
    fix x
    show "mL (flip hk u v) x \<noteq> w"
    proof (cases "x = u")
      case True
      with wv show ?thesis by (simp add: ml)
    next
      case False
      have "mL hk x \<noteq> w"
      proof
        assume e: "mL hk x = w"
        with that have "0 \<le> x \<and> x < LS hk" using mL_out[OF sh, of x] by auto
        with lc e that have "mR hk w = x" by (auto simp: LC_def)
        with lcw[OF that] False show False by simp
      qed
      with False show ?thesis by (simp add: ml)
    qed
  qed
  show ?thesis
    unfolding dpost_def w_def[symmetric]
    using LC' RC' nw sh vN free fin by (auto simp: ml mr)
qed

lemma dpost_Succ:
  assumes pre: "dfs_pre hk u" and st: "step hk u v = Some x" and x: "x \<noteq> LS hk"
    and inner: "dpost hk x hk1 True"
  shows "dpost hk u (flip hk1 u v) True"
proof -
  from pre have sh: "shape hk" and rc: "RC hk NIL" and u: "0 \<le> u" "u < LS hk"
    and fin: "dd hk u \<noteq> \<infinity>" and lc: "LC hk"
    by (auto simp: dfs_pre_def)
  from step_pre[OF pre st x] have px: "dfs_pre hk x" and xm: "x = mR hk v"
    and mx: "mL hk x = v" and dx: "dd hk x = dd hk u + 1" and v: "0 \<le> v" "v < RS hk"
    by blast+
  note g1 = dpost_commonD(1)[OF inner] and sh1 = dpost_commonD(2)[OF inner]
  note fd1 = dpost_commonD(6)[OF inner]
  note lc1 = dpost_TrueD(1)[OF inner] and rc1 = dpost_TrueD(2)[OF inner, unfolded mx]
    and nn1 = dpost_TrueD(3)[OF inner] and same1 = dpost_TrueD(4)[OF inner]
    and fl1 = dpost_TrueD(5)[OF inner] and fr1 = dpost_TrueD(6)[OF inner]
    and nw1 = dpost_TrueD(7)[OF inner, unfolded mx]
  have L1: "LS hk1 = LS hk" and R1: "RS hk1 = RS hk" using g1 by (simp_all add: LS_def RS_def)
  define w where "w = mL hk u"
  have ml: "mL (flip hk1 u v) = (mL hk1)(u := v)" using mL_flip[OF sh1, of u v] u L1 by simp
  have mr: "mR (flip hk1 u v) = (mR hk1)(v := u)" using mR_flip[OF sh1, of v u] v R1 by simp
  have vN: "v \<noteq> NIL" using v NIL_neg by simp
  have uN: "u \<noteq> NIL" using u NIL_neg by simp
  have lt: "dd hk u < dd hk x" and nle: "\<not> dd hk x \<le> dd hk u" and le: "dd hk u \<le> dd hk x"
    and finx: "dd hk x \<noteq> \<infinity>"
    using plus1_less[OF fin] plus1_fin[OF fin] dx by auto
  have xu: "x \<noteq> u" using lt by auto
  have m1u: "mL hk1 u = w" using fl1[of u] nle by (auto simp: w_def)
  have lcw: "mR hk w = u" if "w \<noteq> NIL" using lc u that by (auto simp: LC_def w_def)
  have wv: "w \<noteq> v"
  proof
    assume "w = v"
    with lcw vN xm have "x = u" by simp
    with xu show False by simp
  qed
  have mr1w: "mR hk1 w = u" if "w \<noteq> NIL"
  proof (rule ccontr)
    assume "mR hk1 w \<noteq> u"
    with lcw[OF that] have "mR hk1 w \<noteq> mR hk w" by simp
    from fr1[OF this] have "mR hk w = NIL \<or> dd hk x < dd hk (mR hk w)" .
    with lcw[OF that] uN lt show False by auto
  qed
  have nov: "mL hk1 z \<noteq> v" for z using nw1[OF vN] .
  have LC': "LC (flip hk1 u v)"
    unfolding LC_def
  proof (intro allI impI)
    fix z assume z: "0 \<le> z \<and> z < LS (flip hk1 u v)"
    show "mL (flip hk1 u v) z = NIL \<or>
         0 \<le> mL (flip hk1 u v) z \<and> mL (flip hk1 u v) z < RS (flip hk1 u v) \<and>
         mR (flip hk1 u v) (mL (flip hk1 u v) z) = z"
    proof (cases "z = u")
      case True
      with v R1 show ?thesis by (simp add: ml mr)
    next
      case False
      from lc1 z have c: "mL hk1 z = NIL \<or> (0 \<le> mL hk1 z \<and> mL hk1 z < RS hk1 \<and> mR hk1 (mL hk1 z) = z)"
        by (simp add: LC_def)
      with False nov[of z] show ?thesis by (auto simp: ml mr)
    qed
  qed
  have RC': "RC (flip hk1 u v) w"
    unfolding RC_def
  proof (intro allI impI)
    fix y assume y: "0 \<le> y \<and> y < RS (flip hk1 u v)"
    show "mR (flip hk1 u v) y = NIL \<or>
         0 \<le> mR (flip hk1 u v) y \<and> mR (flip hk1 u v) y < LS (flip hk1 u v) \<and>
         (y \<noteq> w \<longrightarrow> mL (flip hk1 u v) (mR (flip hk1 u v) y) = y)"
    proof (cases "y = v")
      case True
      with u L1 show ?thesis by (simp add: ml mr)
    next
      case False
      from rc1 y False have c: "mR hk1 y = NIL \<or> (0 \<le> mR hk1 y \<and> mR hk1 y < LS hk1 \<and> mL hk1 (mR hk1 y) = y)"
        by (auto simp: RC_def)
      show ?thesis
      proof (cases "mR hk1 y = NIL")
        case True
        with False show ?thesis by (simp add: mr)
      next
        case nn: False
        with c have c': "0 \<le> mR hk1 y" "mR hk1 y < LS hk1" "mL hk1 (mR hk1 y) = y" by auto
        have "y \<noteq> w \<longrightarrow> mR hk1 y \<noteq> u" using c'(3) m1u by auto
        with False c' show ?thesis by (auto simp: ml mr)
      qed
    qed
  qed
  have nw: "\<forall>z. mL (flip hk1 u v) z \<noteq> w" if "w \<noteq> NIL"
  proof
    fix z
    show "mL (flip hk1 u v) z \<noteq> w"
    proof (cases "z = u")
      case True
      with wv show ?thesis by (simp add: ml)
    next
      case False
      have "mL hk1 z \<noteq> w"
      proof
        assume e: "mL hk1 z = w"
        with that have "0 \<le> z \<and> z < LS hk1" using mL_out[OF sh1, of z] by auto
        with lc1 e that have "mR hk1 w = z" by (auto simp: LC_def)
        with mr1w[OF that] False show False by simp
      qed
      with False show ?thesis by (simp add: ml)
    qed
  qed
  have fd: "\<forall>z. dd (flip hk1 u v) z = dd hk z \<or>
          (dd (flip hk1 u v) z = \<infinity> \<and> 0 \<le> z \<and> z < LS hk \<and> dd hk u \<le> dd hk z \<and>
           (z = u \<or> mL hk z \<noteq> NIL))"
  proof
    fix z
    from fd1[of z] show "dd (flip hk1 u v) z = dd hk z \<or>
          (dd (flip hk1 u v) z = \<infinity> \<and> 0 \<le> z \<and> z < LS hk \<and> dd hk u \<le> dd hk z \<and>
           (z = u \<or> mL hk z \<noteq> NIL))"
      using le mx vN by (auto intro: order_trans)
  qed
  have same: "\<forall>z. z \<noteq> u \<longrightarrow> (mL (flip hk1 u v) z = NIL \<longleftrightarrow> mL hk z = NIL)"
  proof (intro allI impI)
    fix z assume "z \<noteq> u"
    then show "mL (flip hk1 u v) z = NIL \<longleftrightarrow> mL hk z = NIL"
      using same1[of z] nn1 mx vN by (cases "z = x") (auto simp: ml)
  qed
  have fl: "\<forall>z. mL (flip hk1 u v) z \<noteq> mL hk z \<longrightarrow> dd hk u \<le> dd hk z \<and> dd hk z \<noteq> \<infinity>"
  proof (intro allI impI)
    fix z assume c: "mL (flip hk1 u v) z \<noteq> mL hk z"
    show "dd hk u \<le> dd hk z \<and> dd hk z \<noteq> \<infinity>"
    proof (cases "z = u")
      case True
      with fin show ?thesis by simp
    next
      case False
      with c have "mL hk1 z \<noteq> mL hk z" by (simp add: ml)
      from fl1[OF this] have "dd hk x \<le> dd hk z \<and> dd hk z \<noteq> \<infinity>" .
      with le show ?thesis by (auto intro: order_trans)
    qed
  qed
  have fr: "\<forall>y. mR (flip hk1 u v) y \<noteq> mR hk y \<longrightarrow> mR hk y = NIL \<or> dd hk u < dd hk (mR hk y)"
  proof (intro allI impI)
    fix y assume c: "mR (flip hk1 u v) y \<noteq> mR hk y"
    show "mR hk y = NIL \<or> dd hk u < dd hk (mR hk y)"
    proof (cases "y = v")
      case True
      with xm lt show ?thesis by simp
    next
      case False
      with c have "mR hk1 y \<noteq> mR hk y" by (simp add: mr)
      from fr1[OF this] have "mR hk y = NIL \<or> dd hk x < dd hk (mR hk y)" .
      with lt show ?thesis by (auto intro: less_trans)
    qed
  qed
  have "mL (flip hk1 u v) u \<noteq> NIL" using vN by (simp add: ml)
  with g1 sh1 fd LC' RC' same fl fr nw show ?thesis
    unfolding dpost_def w_def[symmetric] by simp
qed

lemma dpost_Fail:
  assumes pre: "dfs_pre hk u" and st: "step hk u v = Some x" and x: "x \<noteq> LS hk"
    and inner: "dpost hk x hk1 False" and rest: "dpost hk1 u hk' b"
  shows "dpost hk u hk' b"
proof -
  from pre have fin: "dd hk u \<noteq> \<infinity>" by (simp add: dfs_pre_def)
  from step_pre[OF pre st x] have mx: "mL hk x = v" and dx: "dd hk x = dd hk u + 1"
    and v: "0 \<le> v" "v < RS hk"
    by blast+
  from fail_pre[OF pre st x inner] have du: "dd hk1 u = dd hk u" by blast
  have vN: "v \<noteq> NIL" using v NIL_neg by simp
  have lt: "dd hk u < dd hk x" and le: "dd hk u \<le> dd hk x"
    using plus1_less[OF fin] dx by auto
  note g1 = dpost_commonD(1)[OF inner] and L1 = dpost_commonD(3)[OF inner]
    and fd1 = dpost_commonD(6)[OF inner]
    and l1 = dpost_FalseD(1)[OF inner] and r1 = dpost_FalseD(2)[OF inner]
    and ml1 = dpost_FalseD(3)[OF inner] and mr1 = dpost_FalseD(4)[OF inner]
  note g2 = dpost_commonD(1)[OF rest] and sh2 = dpost_commonD(2)[OF rest]
    and fd2 = dpost_commonD(6)[OF rest]
  have d1: "dd hk1 z = dd hk z \<or> (dd hk1 z = \<infinity> \<and> 0 \<le> z \<and> z < LS hk \<and> dd hk u \<le> dd hk z \<and>
      dd hk u < dd hk z \<and> mL hk z \<noteq> NIL)" for z
    using fd1[of z] le lt mx vN by (auto intro: order_trans less_le_trans)
  have fd: "dd hk' z = dd hk z \<or>
          (dd hk' z = \<infinity> \<and> 0 \<le> z \<and> z < LS hk \<and> dd hk u \<le> dd hk z \<and>
           (z = u \<or> mL hk z \<noteq> NIL))" for z
    using fd2[of z] d1[of z] by (auto simp: du ml1 L1)
  have F: "this_matchLeft hk' = this_matchLeft hk \<and> this_matchRight hk' = this_matchRight hk"
    if "\<not> b"
  proof -
    from that rest have "dpost hk1 u hk' False" by simp
    from dpost_FalseD(1,2)[OF this] l1 r1 show ?thesis by simp
  qed
  have T: "LC hk' \<and> RC hk' (mL hk u) \<and> mL hk' u \<noteq> NIL \<and>
        (\<forall>z. z \<noteq> u \<longrightarrow> (mL hk' z = NIL \<longleftrightarrow> mL hk z = NIL)) \<and>
        (\<forall>z. mL hk' z \<noteq> mL hk z \<longrightarrow> dd hk u \<le> dd hk z \<and> dd hk z \<noteq> \<infinity>) \<and>
        (\<forall>y. mR hk' y \<noteq> mR hk y \<longrightarrow> mR hk y = NIL \<or> dd hk u < dd hk (mR hk y)) \<and>
        (mL hk u \<noteq> NIL \<longrightarrow> (\<forall>z. mL hk' z \<noteq> mL hk u))"
    if b
  proof -
    from that rest have r: "dpost hk1 u hk' True" by simp
    note t = dpost_TrueD[OF r, unfolded ml1 mr1 du]
    have fl: "dd hk u \<le> dd hk z \<and> dd hk z \<noteq> \<infinity>" if "mL hk' z \<noteq> mL hk z" for z
      using t(5)[OF that] d1[of z] by auto
    have fr: "mR hk y = NIL \<or> dd hk u < dd hk (mR hk y)" if "mR hk' y \<noteq> mR hk y" for y
      using t(6)[OF that] d1[of "mR hk y"] by auto
    from t(1,2,3) t(4) t(7) fl fr show ?thesis by blast
  qed
  from g1 g2 sh2 fd F T show ?thesis unfolding dpost_def by simp
qed

lemma DFS_post: "DFS hk u vs hk' b \<Longrightarrow> dfs_pre hk u \<Longrightarrow> dpost hk u hk' b"
proof (induction rule: DFS.induct)
  case (DFS_Nil hk u)
  then show ?case by (rule dpost_Nil)
next
  case (DFS_Skip hk u v vs hk' b)
  then show ?case by simp
next
  case (DFS_Sink hk u v vs)
  then show ?case by (intro dpost_Sink)
next
  case (DFS_Succ hk u v x ns hk1 vs)
  from step_pre[OF DFS_Succ.prems DFS_Succ.hyps(1,2)] have "dfs_pre hk x" by blast
  from DFS_Succ.IH[OF this] have "dpost hk x hk1 True" .
  from dpost_Succ[OF DFS_Succ.prems DFS_Succ.hyps(1,2) this] show ?case .
next
  case (DFS_Fail hk u v x ns hk1 vs hk' b)
  from step_pre[OF DFS_Fail.prems DFS_Fail.hyps(1,2)] have "dfs_pre hk x" by blast
  from DFS_Fail.IH(1)[OF this] have 1: "dpost hk x hk1 False" .
  from fail_pre[OF DFS_Fail.prems DFS_Fail.hyps(1,2) 1] have "dfs_pre hk1 u" by blast
  from DFS_Fail.IH(2)[OF this] have "dpost hk1 u hk' b" .
  from dpost_Fail[OF DFS_Fail.prems DFS_Fail.hyps(1,2) 1 this] show ?case .
qed

section \<open>dfs returns\<close>

lemma finite_above: "finite (above hk u)"
proof -
  have "above hk u \<subseteq> {0..LS hk}" by (auto simp: above_def)
  then show ?thesis by (rule finite_subset) simp
qed

lemma above_step:
  assumes pre: "dfs_pre hk u" and st: "step hk u v = Some x" and x: "x \<noteq> LS hk"
  shows "card (above hk x) < card (above hk u)"
proof -
  from pre have fin: "dd hk u \<noteq> \<infinity>" by (simp add: dfs_pre_def)
  from step_pre[OF pre st x] have px: "dfs_pre hk x" and dx: "dd hk x = dd hk u + 1" by blast+
  from px have xr: "0 \<le> x" "x < LS hk" "dd hk x \<noteq> \<infinity>" by (auto simp: dfs_pre_def)
  have lt: "dd hk u < dd hk x" using plus1_less[OF fin] dx by simp
  have "above hk x \<subseteq> above hk u" using lt by (auto simp: above_def intro: less_trans)
  moreover have "x \<in> above hk u" "x \<notin> above hk x" using xr lt by (auto simp: above_def)
  ultimately have "above hk x \<subset> above hk u" by blast
  then show ?thesis by (rule psubset_card_mono[OF finite_above])
qed

lemma above_fail:
  assumes pre: "dfs_pre hk u" and st: "step hk u v = Some x" and x: "x \<noteq> LS hk"
    and inner: "dpost hk x hk1 False"
  shows "card (above hk1 u) \<le> card (above hk u)"
proof -
  from fail_pre[OF pre st x inner] have du: "dd hk1 u = dd hk u" by blast
  note L1 = dpost_commonD(3)[OF inner] and fd1 = dpost_commonD(6)[OF inner]
  have "above hk1 u \<subseteq> above hk u"
  proof
    fix z assume "z \<in> above hk1 u"
    then have z: "0 \<le> z" "z \<le> LS hk" "dd hk1 z \<noteq> \<infinity>" "dd hk u < dd hk1 z"
      by (auto simp: above_def L1 du)
    with fd1[of z] have "dd hk1 z = dd hk z" by auto
    with z show "z \<in> above hk u" by (simp add: above_def)
  qed
  then show ?thesis by (rule card_mono[OF finite_above])
qed

lemma above_sink:
  assumes pre: "dfs_pre hk u" and st: "step hk u v = Some (LS hk)"
  shows "0 < card (above hk u)"
proof -
  from pre have sh: "shape hk" and rc: "RC hk NIL" and u: "0 \<le> u" "u < LS hk"
    and fin: "dd hk u \<noteq> \<infinity>" by (auto simp: dfs_pre_def)
  have "step hk u v = Some (LS hk) \<longleftrightarrow>
      0 \<le> v \<and> v < RS hk \<and> LS hk = nxt hk (mR hk v) \<and> dd hk (LS hk) = dd hk u + 1"
    by (rule step_Some_iff[OF sh rc u])
  with st have d: "dd hk (LS hk) = dd hk u + 1" by blast
  have "dd hk u < dd hk (LS hk)" using plus1_less[OF fin] d by simp
  moreover have "dd hk (LS hk) \<noteq> \<infinity>" using d plus1_fin[OF fin] by simp
  ultimately have "LS hk \<in> above hk u" using u by (simp add: above_def)
  with finite_above[of hk u] show ?thesis by (auto simp: card_gt_0_iff)
qed

text \<open>
  A scan of the neighbours of \<open>u\<close> returns when the call stack admits as many further
  activations as there are vertices in the layers above \<open>u\<close>.
\<close>

lemma rows_cong: "this_graph hk' = this_graph hk \<Longrightarrow> rows hk' = rows hk"
  by (simp add: rows_def LS_def)

lemma DFS_total_aux:
  "\<forall>hk u vs. card (above hk u) \<le> n \<longrightarrow> dfs_pre hk u \<longrightarrow> rows hk \<longrightarrow>
     (\<exists>hk' b. \<forall>s\<ge>n. dfs_loop s hk u vs = Inr (hk', b))"
proof (induction n)
  case 0
  show ?case
  proof (intro allI impI)
    fix hk u vs
    assume m: "card (above hk u) \<le> 0" and pre: "dfs_pre hk u" and "rows hk"
    have "\<forall>s. dfs_loop s hk u vs = Inr (kill hk u, False)"
    proof (induction vs)
      case Nil
      show ?case by (simp add: dfs_loop_Nil)
    next
      case (Cons v vs)
      show ?case
      proof (cases "step hk u v")
        case None
        with Cons.IH show ?thesis by (simp add: dfs_loop_Cons)
      next
        case (Some x)
        show ?thesis
        proof (cases "x = LS hk")
          case True
          with Some have "step hk u v = Some (LS hk)" by simp
          from above_sink[OF pre this] m show ?thesis by simp
        next
          case False
          from above_step[OF pre Some False] m show ?thesis by simp
        qed
      qed
    qed
    then show "\<exists>hk' b. \<forall>s\<ge>0. dfs_loop s hk u vs = Inr (hk', b)" by blast
  qed
next
  case (Suc n)
  show ?case
  proof (intro allI impI)
    fix hk u vs
    assume m: "card (above hk u) \<le> Suc n" and pre: "dfs_pre hk u" and rw: "rows hk"
    from m pre rw show "\<exists>hk' b. \<forall>s\<ge>Suc n. dfs_loop s hk u vs = Inr (hk', b)"
    proof (induction vs arbitrary: hk)
      case Nil
      have "\<forall>s\<ge>Suc n. dfs_loop s hk u [] = Inr (kill hk u, False)"
        by (simp add: dfs_loop_Nil)
      then show ?case by blast
    next
      case (Cons v vs)
      note pre = Cons.prems(2) and rw = Cons.prems(3)
      show ?case
      proof (cases "step hk u v")
        case None
        from Cons.IH[OF Cons.prems] obtain hk' b where
          "\<forall>s\<ge>Suc n. dfs_loop s hk u vs = Inr (hk', b)" by blast
        with None have "\<forall>s\<ge>Suc n. dfs_loop s hk u (v # vs) = Inr (hk', b)"
          by (simp add: dfs_loop_Cons)
        then show ?thesis by blast
      next
        case (Some x)
        show ?thesis
        proof (cases "x = LS hk")
          case True
          have "\<forall>s\<ge>Suc n. dfs_loop s hk u (v # vs) = Inr (flip hk u v, True)"
          proof (intro allI impI)
            fix s :: nat assume "Suc n \<le> s"
            then obtain s' where "s = Suc s'" by (cases s) auto
            with Some True show "dfs_loop s hk u (v # vs) = Inr (flip hk u v, True)"
              by (simp add: dfs_loop_Cons)
          qed
          then show ?thesis by blast
        next
          case False
          from step_pre[OF pre Some False] have px: "dfs_pre hk x" by blast
          then have "0 \<le> x" "x < LS hk" by (auto simp: dfs_pre_def)
          from arr_get_row[OF rw this]
          have rowx: "arr_get (edges (this_graph hk)) x = Some (row hk x)" .
          from above_step[OF pre Some False] Cons.prems(1) have "card (above hk x) \<le> n" by simp
          with Suc.IH px rw obtain hk1 b1 where
            run1: "\<forall>s\<ge>n. dfs_loop s hk x (row hk x) = Inr (hk1, b1)" by blast
          then have "dfs_loop n hk x (row hk x) = Inr (hk1, b1)" by simp
          from DFS_complete[OF this] have d1: "DFS hk x (row hk x) hk1 b1" .
          show ?thesis
          proof (cases b1)
            case True
            have "\<forall>s\<ge>Suc n. dfs_loop s hk u (v # vs) = Inr (flip hk1 u v, True)"
            proof (intro allI impI)
              fix s :: nat assume "Suc n \<le> s"
              then obtain s' where s: "s = Suc s'" "n \<le> s'" by (cases s) auto
              with run1 have "dfs_loop s' hk x (row hk x) = Inr (hk1, b1)" by simp
              with Some False rowx True s
              show "dfs_loop s hk u (v # vs) = Inr (flip hk1 u v, True)"
                by (simp add: dfs_loop_Cons)
            qed
            then show ?thesis by blast
          next
            case b1: False
            from DFS_post[OF d1 px] b1 have post1: "dpost hk x hk1 False" by simp
            from fail_pre[OF pre Some False post1] have pre1: "dfs_pre hk1 u" by blast
            from above_fail[OF pre Some False post1] Cons.prems(1)
            have c1: "card (above hk1 u) \<le> Suc n" by simp
            from rows_cong[OF dpost_commonD(1)[OF post1]] rw have rw1: "rows hk1" by simp
            from Cons.IH[OF c1 pre1 rw1] obtain hk' b where
              r2: "\<forall>s\<ge>Suc n. dfs_loop s hk1 u vs = Inr (hk', b)" by blast
            have "\<forall>s\<ge>Suc n. dfs_loop s hk u (v # vs) = Inr (hk', b)"
            proof (intro allI impI)
              fix s :: nat assume le: "Suc n \<le> s"
              then obtain s' where s: "s = Suc s'" "n \<le> s'" by (cases s) auto
              with run1 have "dfs_loop s' hk x (row hk x) = Inr (hk1, b1)" by simp
              moreover from r2 le have "dfs_loop s hk1 u vs = Inr (hk', b)" by simp
              ultimately show "dfs_loop s hk u (v # vs) = Inr (hk', b)"
                using Some False rowx b1 s by (simp add: dfs_loop_Cons)
            qed
            then show ?thesis by blast
          qed
        qed
      qed
    qed
  qed
qed

lemma card_above_le:
  assumes "0 \<le> u" "u < LS hk"
  shows "card (above hk u) \<le> nat (LS hk)"
proof -
  have "above hk u \<subseteq> {0..LS hk} - {u}" by (auto simp: above_def)
  then have "card (above hk u) \<le> card ({0..LS hk} - {u})" by (intro card_mono) auto
  also have "\<dots> = nat (LS hk)" using assms by simp
  finally show ?thesis .
qed

lemma dfs_loop_returns:
  assumes "dfs_pre hk u" "rows hk" "nat (LS hk) \<le> s"
  shows "\<exists>hk' b. dfs_loop s hk u vs = Inr (hk', b) \<and> DFS hk u vs hk' b \<and> dpost hk u hk' b"
proof -
  from assms(1) have u: "0 \<le> u" "u < LS hk" by (auto simp: dfs_pre_def)
  from card_above_le[OF u] assms(3) have "card (above hk u) \<le> s" by simp
  with DFS_total_aux[of s] assms(1,2) obtain hk' b where
    r: "dfs_loop s hk u vs = Inr (hk', b)" by blast
  from DFS_complete[OF r] have d: "DFS hk u vs hk' b" .
  from r d DFS_post[OF d assms(1)] show ?thesis by blast
qed

lemma dfs_unfold:
  assumes "0 \<le> u" "u < LS hk"
  shows "dfs (Suc s) hk u =
    (case arr_get (edges (this_graph hk)) u of
       None \<Rightarrow> Inl (TypeError, hk) | Some vs \<Rightarrow> dfs_loop s hk u vs)"
  using assms by (simp add: dfs_def LS_def)

lemma dfs_returns:
  assumes "dfs_pre hk u" "rows hk" "nat (LS hk) < stack"
  shows "\<exists>hk' b. dfs stack hk u = Inr (hk', b)"
proof -
  from assms(1) have u: "0 \<le> u" "u < LS hk" by (auto simp: dfs_pre_def)
  from assms(3) obtain s where s: "stack = Suc s" "nat (LS hk) \<le> s"
    by (cases stack) auto
  have "dfs stack hk u = dfs_loop s hk u (row hk u)"
    by (simp add: s dfs_unfold[OF u] arr_get_row[OF assms(2) u])
  with dfs_loop_returns[OF assms(1,2) s(2), of "row hk u"] show ?thesis by auto
qed

text \<open>Whatever the stack, a call of \<open>dfs\<close> that returns is a run of the relation.\<close>

lemma dfs_Inr:
  assumes "dfs stack hk u = Inr (hk', b)" "dfs_pre hk u"
  shows "DFS hk u (row hk u) hk' b \<and> dpost hk u hk' b"
proof -
  from assms(2) have u: "0 \<le> u" "u < LS hk" by (auto simp: dfs_pre_def)
  from assms(1) obtain s where s: "stack = Suc s" by (cases stack) (auto simp: dfs_def)
  from assms(1) s obtain vs where vs: "arr_get (edges (this_graph hk)) u = Some vs"
    and r: "dfs_loop s hk u vs = Inr (hk', b)"
    by (auto simp: dfs_unfold[OF u] split: option.splits)
  from arr_get_row_eq[OF vs] have "vs = row hk u" by simp
  with DFS_complete[OF r] have d: "DFS hk u (row hk u) hk' b" by simp
  with DFS_post[OF d assms(2)] show ?thesis by blast
qed

section \<open>What a call that throws leaves behind\<close>

lemma same_match_refl [simp]: "same_match hk hk"
  by (simp add: same_match_def)

lemma same_match_trans: "same_match a b \<Longrightarrow> same_match b c \<Longrightarrow> same_match a c"
  by (simp add: same_match_def)

lemma same_match_kill [simp]: "same_match hk (kill hk u)"
  by (simp add: same_match_def kill_def)

lemma DFS_frame:
  "DFS hk u vs hk' b \<Longrightarrow>
   this_graph hk' = this_graph hk \<and> length (this_dist hk') = length (this_dist hk) \<and>
   (\<not> b \<longrightarrow> same_match hk hk')"
proof (induction rule: DFS.induct)
  case (DFS_Nil hk u)
  show ?case by (simp add: same_match_def kill_def)
next
  case (DFS_Skip hk u v vs hk' b)
  then show ?case by simp
next
  case (DFS_Sink hk u v vs)
  show ?case by simp
next
  case (DFS_Succ hk u v x ns hk1 vs)
  then show ?case by simp
next
  case (DFS_Fail hk u v x ns hk1 vs hk' b)
  then show ?case by (auto simp: same_match_def)
qed

lemma dfs_loop_Inl_aux:
  "\<forall>hk u vs e hkE. dfs_loop s hk u vs = Inl (e, hkE) \<longrightarrow>
     same_match hk hkE \<and> (e = RangeError \<or> e = TypeError)"
proof (induction s)
  case 0
  show ?case
  proof (intro allI impI)
    fix hk u vs e hkE
    assume "dfs_loop 0 hk u vs = Inl (e, hkE)"
    then show "same_match hk hkE \<and> (e = RangeError \<or> e = TypeError)"
    proof (induction vs)
      case Nil
      then show ?case by (simp add: dfs_loop_Nil)
    next
      case (Cons v vs)
      show ?case
      proof (cases "step hk u v")
        case None
        with Cons.prems have "dfs_loop 0 hk u vs = Inl (e, hkE)" by (simp add: dfs_loop_Cons)
        from Cons.IH[OF this] show ?thesis .
      next
        case (Some x)
        with Cons.prems show ?thesis by (simp add: dfs_loop_Cons)
      qed
    qed
  qed
next
  case (Suc s)
  show ?case
  proof (intro allI impI)
    fix hk u vs e hkE
    assume "dfs_loop (Suc s) hk u vs = Inl (e, hkE)"
    then show "same_match hk hkE \<and> (e = RangeError \<or> e = TypeError)"
    proof (induction vs arbitrary: hk)
      case Nil
      then show ?case by (simp add: dfs_loop_Nil)
    next
      case (Cons v vs)
      show ?case
      proof (cases "step hk u v")
        case None
        with Cons.prems have "dfs_loop (Suc s) hk u vs = Inl (e, hkE)"
          by (simp add: dfs_loop_Cons)
        from Cons.IH[OF this] show ?thesis .
      next
        case (Some x)
        show ?thesis
        proof (cases "x = LS hk")
          case True
          with Some Cons.prems show ?thesis by (simp add: dfs_loop_Cons)
        next
          case False
          show ?thesis
          proof (cases "arr_get (edges (this_graph hk)) x")
            case None
            with Some False Cons.prems show ?thesis by (simp add: dfs_loop_Cons)
          next
            case ns: (Some ns)
            show ?thesis
            proof (cases "dfs_loop s hk x ns")
              case (Inl p)
              with Some False ns Cons.prems have "dfs_loop s hk x ns = Inl (e, hkE)"
                by (simp add: dfs_loop_Cons)
              with Suc.IH show ?thesis by blast
            next
              case (Inr r)
              obtain hk1 ok where r: "r = (hk1, ok)" by (cases r)
              show ?thesis
              proof (cases ok)
                case True
                with Some False ns Inr r Cons.prems show ?thesis by (simp add: dfs_loop_Cons)
              next
                case f: False
                with Some False ns Inr r Cons.prems
                have c: "dfs_loop (Suc s) hk1 u vs = Inl (e, hkE)" by (simp add: dfs_loop_Cons)
                from Inr r f have "dfs_loop s hk x ns = Inr (hk1, False)" by simp
                from DFS_frame[OF DFS_complete[OF this]] have "same_match hk hk1" by simp
                with Cons.IH[OF c] show ?thesis by (blast intro: same_match_trans)
              qed
            qed
          qed
        qed
      qed
    qed
  qed
qed

lemma dfs_Inl:
  assumes "dfs stack hk u = Inl (e, hkE)"
  shows "same_match hk hkE \<and> (e = RangeError \<or> e = TypeError)"
proof (cases stack)
  case 0
  with assms show ?thesis by (simp add: dfs_def)
next
  case (Suc s)
  show ?thesis
  proof (cases "u = leftSize (this_graph hk)")
    case True
    with assms Suc show ?thesis by (simp add: dfs_def)
  next
    case False
    show ?thesis
    proof (cases "arr_get (edges (this_graph hk)) u")
      case None
      with assms Suc False show ?thesis by (simp add: dfs_def)
    next
      case (Some vs)
      with assms Suc False have "dfs_loop s hk u vs = Inl (e, hkE)" by (simp add: dfs_def)
      with dfs_loop_Inl_aux show ?thesis by blast
    qed
  qed
qed

section \<open>bfs\<close>

lemma dd_dget: "dd hk = dget (this_dist hk)"
  by (simp add: dd_def dget_def fun_eq_iff)

lemma dget_update:
  "0 \<le> i \<Longrightarrow> i < int (length d) \<Longrightarrow> dget (d[nat i := k]) = (dget d)(i := k)"
  by (auto simp: dget_def fun_eq_iff arr_get_update)

lemma dget_nth: "0 \<le> i \<Longrightarrow> i < int (length d) \<Longrightarrow> d ! nat i = dget d i"
  by (simp add: dget_def arr_get_def)

lemma arr_get_dget: "0 \<le> i \<Longrightarrow> i < int (length d) \<Longrightarrow> arr_get d i = Some (dget d i)"
  by (simp add: dget_def arr_get_def)

subsection \<open>Initialisation\<close>

lemma bfs_init_spec:
  assumes "bfs_init ml d q us = (d', q')" "\<forall>u\<in>set us. 0 \<le> u \<and> u < int (length d)"
  shows "length d' = length d \<and>
         dget d' = (\<lambda>z. if z \<in> set us then (if arr_get ml z = Some NIL then 0 else \<infinity>) else dget d z) \<and>
         set q' = set q \<union> {u \<in> set us. arr_get ml u = Some NIL}"
  using assms
proof (induction us arbitrary: d q)
  case Nil
  then show ?case by simp
next
  case (Cons u us)
  from Cons.prems(2) have u: "0 \<le> u" "u < int (length d)" by auto
  show ?case
  proof (cases "arr_get ml u = Some NIL")
    case True
    with Cons.prems have run: "bfs_init ml (d[nat u := 0]) (q @ [u]) us = (d', q')" by simp
    have "\<forall>z\<in>set us. 0 \<le> z \<and> z < int (length (d[nat u := 0]))" using Cons.prems(2) by simp
    from Cons.IH[OF run this] True u show ?thesis
      by (auto simp: dget_update fun_eq_iff)
  next
    case False
    with Cons.prems have run: "bfs_init ml (d[nat u := \<infinity>]) q us = (d', q')" by simp
    have "\<forall>z\<in>set us. 0 \<le> z \<and> z < int (length (d[nat u := \<infinity>]))" using Cons.prems(2) by simp
    from Cons.IH[OF run this] False u show ?thesis
      by (auto simp: dget_update fun_eq_iff)
  qed
qed

subsection \<open>The invariant of the search\<close>

lemma binv_shrink:
  assumes "binv hk D q P"
    and "D (LS hk) = \<infinity> \<Longrightarrow> \<forall>(a, b)\<in>P. (a, b) \<in> P' \<or> \<not> (0 \<le> b \<and> b < RS hk) \<or>
           (mR hk b \<noteq> NIL \<and> D (mR hk b) \<noteq> \<infinity>)"
  shows "binv hk D q P'"
proof -
  have last: "D (LS hk) = \<infinity> \<longrightarrow>
        (\<forall>u. 0 \<le> u \<and> u < LS hk \<and> D u \<noteq> \<infinity> \<longrightarrow>
           u \<in> set q \<or>
           (\<forall>v\<in>set (row hk u). (u, v) \<in> P' \<or> \<not> (0 \<le> v \<and> v < RS hk) \<or>
              (mR hk v \<noteq> NIL \<and> D (mR hk v) \<noteq> \<infinity>)))"
  proof (intro impI allI)
    fix u assume inf: "D (LS hk) = \<infinity>" and u: "0 \<le> u \<and> u < LS hk \<and> D u \<noteq> \<infinity>"
    from assms(1) inf u have old: "u \<in> set q \<or>
           (\<forall>v\<in>set (row hk u). (u, v) \<in> P \<or> \<not> (0 \<le> v \<and> v < RS hk) \<or>
              (mR hk v \<noteq> NIL \<and> D (mR hk v) \<noteq> \<infinity>))"
      unfolding binv_def by blast
    show "u \<in> set q \<or>
           (\<forall>v\<in>set (row hk u). (u, v) \<in> P' \<or> \<not> (0 \<le> v \<and> v < RS hk) \<or>
              (mR hk v \<noteq> NIL \<and> D (mR hk v) \<noteq> \<infinity>))"
    proof (cases "u \<in> set q")
      case True
      then show ?thesis by simp
    next
      case False
      with old have o: "\<forall>v\<in>set (row hk u). (u, v) \<in> P \<or> \<not> (0 \<le> v \<and> v < RS hk) \<or>
              (mR hk v \<noteq> NIL \<and> D (mR hk v) \<noteq> \<infinity>)" by simp
      have "(u, v) \<in> P' \<or> \<not> (0 \<le> v \<and> v < RS hk) \<or>
              (mR hk v \<noteq> NIL \<and> D (mR hk v) \<noteq> \<infinity>)" if "v \<in> set (row hk u)" for v
        using o[rule_format, OF that] assms(2)[OF inf] by blast
      then show ?thesis by blast
    qed
  qed
  from assms(1) have
    "\<forall>u\<in>set q. 0 \<le> u \<and> u < LS hk \<and> D u \<noteq> \<infinity>"
    "\<forall>x. 0 \<le> x \<and> x \<le> LS hk \<and> D x \<noteq> \<infinity> \<longrightarrow>
        (x < LS hk \<and> mL hk x = NIL \<and> D x = 0) \<or>
        (\<exists>u v. 0 \<le> u \<and> u < LS hk \<and> v \<in> set (row hk u) \<and> 0 \<le> v \<and> v < RS hk \<and>
               nxt hk (mR hk v) = x \<and> D u \<noteq> \<infinity> \<and> D x = D u + 1)"
    "\<forall>u. 0 \<le> u \<and> u < LS hk \<and> mL hk u = NIL \<longrightarrow> D u = 0"
    unfolding binv_def by simp_all
  with last show ?thesis unfolding binv_def by simp
qed

lemma binv_update:
  assumes inv: "binv hk D q P"
    and sh: "shape hk" and rc: "RC hk NIL"
    and u: "0 \<le> u" "u < LS hk" "D u \<noteq> \<infinity>"
    and v: "v \<in> set (row hk u)" "0 \<le> v" "v < RS hk"
    and idx: "idx = nxt hk (mR hk v)" "D idx = \<infinity>"
  shows "binv hk (D(idx := D u + 1)) (if mR hk v \<noteq> NIL then q @ [mR hk v] else q) P"
proof -
  define D' where "D' = D(idx := D u + 1)"
  define q' where "q' = (if mR hk v \<noteq> NIL then q @ [mR hk v] else q)"
  from inv have
    I2: "\<And>z. z \<in> set q \<Longrightarrow> 0 \<le> z \<and> z < LS hk \<and> D z \<noteq> \<infinity>" and
    I3: "\<And>x. 0 \<le> x \<and> x \<le> LS hk \<and> D x \<noteq> \<infinity> \<Longrightarrow>
        (x < LS hk \<and> mL hk x = NIL \<and> D x = 0) \<or>
        (\<exists>u v. 0 \<le> u \<and> u < LS hk \<and> v \<in> set (row hk u) \<and> 0 \<le> v \<and> v < RS hk \<and>
               nxt hk (mR hk v) = x \<and> D u \<noteq> \<infinity> \<and> D x = D u + 1)" and
    I5: "\<And>z. 0 \<le> z \<and> z < LS hk \<and> mL hk z = NIL \<Longrightarrow> D z = 0" and
    I4: "\<And>z. D (LS hk) = \<infinity> \<Longrightarrow> 0 \<le> z \<and> z < LS hk \<and> D z \<noteq> \<infinity> \<Longrightarrow>
           z \<in> set q \<or>
           (\<forall>v\<in>set (row hk z). (z, v) \<in> P \<or> \<not> (0 \<le> v \<and> v < RS hk) \<or>
              (mR hk v \<noteq> NIL \<and> D (mR hk v) \<noteq> \<infinity>))"
    unfolding binv_def by blast+
  have keep: "D' z = D z" if "D z \<noteq> \<infinity>" for z using that idx(2) by (auto simp: D'_def)
  have mono: "D' z \<noteq> \<infinity>" if "D z \<noteq> \<infinity>" for z using keep[OF that] that by simp
  have newv: "D' idx = D' u + 1" "D' idx \<noteq> \<infinity>" "D' u \<noteq> \<infinity>"
    using u(3) idx(2) keep[OF u(3)] plus1_fin[OF u(3)] by (auto simp: D'_def)
  have mrange: "0 \<le> mR hk v \<and> mR hk v < LS hk \<and> idx = mR hk v" if "mR hk v \<noteq> NIL"
    using mR_range[OF sh rc, of v] that idx(1) by (auto simp: nxt_def)
  have J2: "\<forall>z\<in>set q'. 0 \<le> z \<and> z < LS hk \<and> D' z \<noteq> \<infinity>"
  proof
    fix z assume "z \<in> set q'"
    then consider "z \<in> set q" | "mR hk v \<noteq> NIL" "z = mR hk v"
      by (auto simp: q'_def split: if_splits)
    then show "0 \<le> z \<and> z < LS hk \<and> D' z \<noteq> \<infinity>"
    proof cases
      case 1
      from I2[OF 1] mono show ?thesis by blast
    next
      case 2
      with mrange newv show ?thesis by auto
    qed
  qed
  have J3: "\<forall>x. 0 \<le> x \<and> x \<le> LS hk \<and> D' x \<noteq> \<infinity> \<longrightarrow>
        (x < LS hk \<and> mL hk x = NIL \<and> D' x = 0) \<or>
        (\<exists>u v. 0 \<le> u \<and> u < LS hk \<and> v \<in> set (row hk u) \<and> 0 \<le> v \<and> v < RS hk \<and>
               nxt hk (mR hk v) = x \<and> D' u \<noteq> \<infinity> \<and> D' x = D' u + 1)"
  proof (intro allI impI)
    fix x assume x: "0 \<le> x \<and> x \<le> LS hk \<and> D' x \<noteq> \<infinity>"
    show "(x < LS hk \<and> mL hk x = NIL \<and> D' x = 0) \<or>
        (\<exists>u v. 0 \<le> u \<and> u < LS hk \<and> v \<in> set (row hk u) \<and> 0 \<le> v \<and> v < RS hk \<and>
               nxt hk (mR hk v) = x \<and> D' u \<noteq> \<infinity> \<and> D' x = D' u + 1)"
    proof (cases "x = idx")
      case True
      with u v idx(1) newv show ?thesis by blast
    next
      case False
      then have e: "D' x = D x" by (simp add: D'_def)
      with x have "0 \<le> x \<and> x \<le> LS hk \<and> D x \<noteq> \<infinity>" by simp
      from I3[OF this] show ?thesis
      proof
        assume "x < LS hk \<and> mL hk x = NIL \<and> D x = 0"
        with e show ?thesis by simp
      next
        assume "\<exists>u v. 0 \<le> u \<and> u < LS hk \<and> v \<in> set (row hk u) \<and> 0 \<le> v \<and> v < RS hk \<and>
               nxt hk (mR hk v) = x \<and> D u \<noteq> \<infinity> \<and> D x = D u + 1"
        then obtain u0 v0 where "0 \<le> u0" "u0 < LS hk" "v0 \<in> set (row hk u0)" "0 \<le> v0" "v0 < RS hk"
          "nxt hk (mR hk v0) = x" "D u0 \<noteq> \<infinity>" "D x = D u0 + 1" by blast
        with e keep[of u0] have "0 \<le> u0 \<and> u0 < LS hk \<and> v0 \<in> set (row hk u0) \<and> 0 \<le> v0 \<and> v0 < RS hk \<and>
               nxt hk (mR hk v0) = x \<and> D' u0 \<noteq> \<infinity> \<and> D' x = D' u0 + 1" by simp
        then show ?thesis by blast
      qed
    qed
  qed
  have J5: "\<forall>z. 0 \<le> z \<and> z < LS hk \<and> mL hk z = NIL \<longrightarrow> D' z = 0"
  proof (intro allI impI)
    fix z assume z: "0 \<le> z \<and> z < LS hk \<and> mL hk z = NIL"
    from I5[OF this] have "D z = 0" .
    then have "D z \<noteq> \<infinity>" by simp
    from keep[OF this] \<open>D z = 0\<close> show "D' z = 0" by simp
  qed
  have J4: "D' (LS hk) = \<infinity> \<longrightarrow>
        (\<forall>z. 0 \<le> z \<and> z < LS hk \<and> D' z \<noteq> \<infinity> \<longrightarrow>
           z \<in> set q' \<or>
           (\<forall>v\<in>set (row hk z). (z, v) \<in> P \<or> \<not> (0 \<le> v \<and> v < RS hk) \<or>
              (mR hk v \<noteq> NIL \<and> D' (mR hk v) \<noteq> \<infinity>)))"
  proof (intro impI allI)
    fix z assume inf': "D' (LS hk) = \<infinity>" and z: "0 \<le> z \<and> z < LS hk \<and> D' z \<noteq> \<infinity>"
    from inf' mono[of "LS hk"] have inf: "D (LS hk) = \<infinity>" by blast
    from inf' newv have "idx \<noteq> LS hk" by auto
    with idx(1) have mn: "mR hk v \<noteq> NIL" by (auto simp: nxt_def)
    show "z \<in> set q' \<or>
           (\<forall>v\<in>set (row hk z). (z, v) \<in> P \<or> \<not> (0 \<le> v \<and> v < RS hk) \<or>
              (mR hk v \<noteq> NIL \<and> D' (mR hk v) \<noteq> \<infinity>))"
    proof (cases "z = idx")
      case True
      with mn mrange show ?thesis by (simp add: q'_def)
    next
      case False
      with z have "0 \<le> z \<and> z < LS hk \<and> D z \<noteq> \<infinity>" by (simp add: D'_def)
      from I4[OF inf this] show ?thesis
      proof
        assume "z \<in> set q"
        then show ?thesis by (simp add: q'_def)
      next
        assume o: "\<forall>v\<in>set (row hk z). (z, v) \<in> P \<or> \<not> (0 \<le> v \<and> v < RS hk) \<or>
              (mR hk v \<noteq> NIL \<and> D (mR hk v) \<noteq> \<infinity>)"
        have "(z, b) \<in> P \<or> \<not> (0 \<le> b \<and> b < RS hk) \<or>
              (mR hk b \<noteq> NIL \<and> D' (mR hk b) \<noteq> \<infinity>)" if "b \<in> set (row hk z)" for b
          using o[rule_format, OF that] mono[of "mR hk b"] by blast
        then show ?thesis by blast
      qed
    qed
  qed
  from J2 J3 J5 J4 show ?thesis
    unfolding binv_def D'_def[symmetric] q'_def[symmetric] by simp
qed

lemma bfs_edges_inv:
  assumes sh: "shape hk" and rc: "RC hk NIL" and u: "0 \<le> u" "u < LS hk"
    and len: "length d = nat (LS hk) + 1"
    and fin: "dget d u \<noteq> \<infinity>"
    and sub: "set vs \<subseteq> set (row hk u)"
    and inv: "binv hk (dget d) q ({u} \<times> set vs)"
    and run: "bfs_edges (LS hk) (RS hk) (this_matchRight hk) u d q vs = (d', q')"
  shows "length d' = nat (LS hk) + 1 \<and> binv hk (dget d') q' {}"
  using len fin sub inv run
proof (induction vs arbitrary: d q)
  case Nil
  then show ?case by simp
next
  case (Cons v vs)
  note len = Cons.prems(1) and fin = Cons.prems(2) and inv = Cons.prems(4)
  from Cons.prems(3) have vrow: "v \<in> set (row hk u)" and sub: "set vs \<subseteq> set (row hk u)" by auto
  let ?D = "dget d"
  show ?case
  proof (cases "0 \<le> v \<and> v < RS hk")
    case False
    with Cons.prems(5) have run: "bfs_edges (LS hk) (RS hk) (this_matchRight hk) u d q vs = (d', q')"
      by auto
    have "binv hk ?D q ({u} \<times> set vs)"
      by (rule binv_shrink[OF inv]) (use False in auto)
    from Cons.IH[OF len fin sub this run] show ?thesis .
  next
    case True
    then have av: "arr_get (this_matchRight hk) v = Some (mR hk v)" using sh by (simp add: arr_get_mR)
    define m where "m = mR hk v"
    define idx where "idx = nxt hk m"
    from nxt_range[OF sh rc, of v] have ir: "0 \<le> idx" "idx \<le> LS hk" by (simp_all add: idx_def m_def)
    then have ii: "idx < int (length d)" using len by simp
    have ai: "arr_get d idx = Some (?D idx)" using ir ii by (simp add: arr_get_dget)
    have ur: "u < int (length d)" using u len by simp
    have eq: "bfs_edges (LS hk) (RS hk) (this_matchRight hk) u d q (v # vs) =
        (if ?D idx = \<infinity> then
           bfs_edges (LS hk) (RS hk) (this_matchRight hk) u (d[nat idx := d ! nat u + 1])
             (if m \<noteq> NIL then q @ [m] else q) vs
         else bfs_edges (LS hk) (RS hk) (this_matchRight hk) u d q vs)"
      using True av ai by (simp add: Let_def m_def idx_def nxt_def)
    show ?thesis
    proof (cases "?D idx = \<infinity>")
      case False
      with Cons.prems(5)
      have run: "bfs_edges (LS hk) (RS hk) (this_matchRight hk) u d q vs = (d', q')"
        by (simp only: eq) simp
      have "binv hk ?D q ({u} \<times> set vs)"
      proof (rule binv_shrink[OF inv])
        assume i: "?D (LS hk) = \<infinity>"
        with False have "idx \<noteq> LS hk" by auto
        then have "mR hk v \<noteq> NIL \<and> idx = mR hk v" by (auto simp: idx_def m_def nxt_def)
        with False show "\<forall>(a, b)\<in>{u} \<times> set (v # vs). (a, b) \<in> {u} \<times> set vs \<or>
            \<not> (0 \<le> b \<and> b < RS hk) \<or> (mR hk b \<noteq> NIL \<and> ?D (mR hk b) \<noteq> \<infinity>)"
          by auto
      qed
      from Cons.IH[OF len fin sub this run] show ?thesis .
    next
      case inf: True
      define d1 where "d1 = d[nat idx := d ! nat u + 1]"
      define q1 where "q1 = (if m \<noteq> NIL then q @ [m] else q)"
      from Cons.prems(5) inf
      have run: "bfs_edges (LS hk) (RS hk) (this_matchRight hk) u d1 q1 vs = (d', q')"
        by (simp only: eq d1_def q1_def) simp
      have D1: "dget d1 = ?D(idx := ?D u + 1)"
        using ir ii u ur by (simp add: d1_def dget_update dget_nth)
      have len1: "length d1 = nat (LS hk) + 1" using len by (simp add: d1_def)
      have iu: "idx \<noteq> u" using inf fin by auto
      have fin1: "dget d1 u \<noteq> \<infinity>" using fin iu by (simp add: D1)
      have b1: "binv hk (dget d1) q1 ({u} \<times> set (v # vs))"
        unfolding D1 q1_def m_def
        by (rule binv_update[OF inv sh rc u(1,2) fin vrow]) (use True inf in \<open>auto simp: idx_def m_def\<close>)
      have "binv hk (dget d1) q1 ({u} \<times> set vs)"
      proof (rule binv_shrink[OF b1])
        assume i: "dget d1 (LS hk) = \<infinity>"
        have "dget d1 idx \<noteq> \<infinity>" using plus1_fin[OF fin] by (simp add: D1)
        with i have "idx \<noteq> LS hk" by auto
        then have "mR hk v \<noteq> NIL \<and> idx = mR hk v" by (auto simp: idx_def m_def nxt_def)
        with \<open>dget d1 idx \<noteq> \<infinity>\<close>
        show "\<forall>(a, b)\<in>{u} \<times> set (v # vs). (a, b) \<in> {u} \<times> set vs \<or>
            \<not> (0 \<le> b \<and> b < RS hk) \<or> (mR hk b \<noteq> NIL \<and> dget d1 (mR hk b) \<noteq> \<infinity>)"
          by auto
      qed
      from Cons.IH[OF len1 fin1 sub this run] show ?thesis .
    qed
  qed
qed

lemma binv_pop:
  assumes "binv hk D (u # q) {}"
  shows "binv hk D q ({u} \<times> set (row hk u))"
proof -
  from assms have
    I2: "\<forall>z\<in>set (u # q). 0 \<le> z \<and> z < LS hk \<and> D z \<noteq> \<infinity>" and
    I3: "\<forall>x. 0 \<le> x \<and> x \<le> LS hk \<and> D x \<noteq> \<infinity> \<longrightarrow>
        (x < LS hk \<and> mL hk x = NIL \<and> D x = 0) \<or>
        (\<exists>u v. 0 \<le> u \<and> u < LS hk \<and> v \<in> set (row hk u) \<and> 0 \<le> v \<and> v < RS hk \<and>
               nxt hk (mR hk v) = x \<and> D u \<noteq> \<infinity> \<and> D x = D u + 1)" and
    I5: "\<forall>z. 0 \<le> z \<and> z < LS hk \<and> mL hk z = NIL \<longrightarrow> D z = 0" and
    I4: "\<And>z. D (LS hk) = \<infinity> \<Longrightarrow> 0 \<le> z \<and> z < LS hk \<and> D z \<noteq> \<infinity> \<Longrightarrow>
           z \<in> set (u # q) \<or>
           (\<forall>v\<in>set (row hk z). (z, v) \<in> {} \<or> \<not> (0 \<le> v \<and> v < RS hk) \<or>
              (mR hk v \<noteq> NIL \<and> D (mR hk v) \<noteq> \<infinity>))"
    unfolding binv_def by blast+
  have J4: "D (LS hk) = \<infinity> \<longrightarrow>
        (\<forall>z. 0 \<le> z \<and> z < LS hk \<and> D z \<noteq> \<infinity> \<longrightarrow>
           z \<in> set q \<or>
           (\<forall>v\<in>set (row hk z). (z, v) \<in> {u} \<times> set (row hk u) \<or> \<not> (0 \<le> v \<and> v < RS hk) \<or>
              (mR hk v \<noteq> NIL \<and> D (mR hk v) \<noteq> \<infinity>)))"
  proof (intro impI allI)
    fix z assume "D (LS hk) = \<infinity>" "0 \<le> z \<and> z < LS hk \<and> D z \<noteq> \<infinity>"
    from I4[OF this]
    show "z \<in> set q \<or>
           (\<forall>v\<in>set (row hk z). (z, v) \<in> {u} \<times> set (row hk u) \<or> \<not> (0 \<le> v \<and> v < RS hk) \<or>
              (mR hk v \<noteq> NIL \<and> D (mR hk v) \<noteq> \<infinity>))"
      by (cases "z = u") auto
  qed
  from I2 have "\<forall>z\<in>set q. 0 \<le> z \<and> z < LS hk \<and> D z \<noteq> \<infinity>" by simp
  with I3 I5 J4 show ?thesis unfolding binv_def by simp
qed

lemma binv_skip:
  assumes "binv hk D (u # q) P" "D (LS hk) \<noteq> \<infinity>"
  shows "binv hk D q P"
proof -
  from assms(1) have
    I2: "\<forall>z\<in>set (u # q). 0 \<le> z \<and> z < LS hk \<and> D z \<noteq> \<infinity>" and
    I3: "\<forall>x. 0 \<le> x \<and> x \<le> LS hk \<and> D x \<noteq> \<infinity> \<longrightarrow>
        (x < LS hk \<and> mL hk x = NIL \<and> D x = 0) \<or>
        (\<exists>u v. 0 \<le> u \<and> u < LS hk \<and> v \<in> set (row hk u) \<and> 0 \<le> v \<and> v < RS hk \<and>
               nxt hk (mR hk v) = x \<and> D u \<noteq> \<infinity> \<and> D x = D u + 1)" and
    I5: "\<forall>z. 0 \<le> z \<and> z < LS hk \<and> mL hk z = NIL \<longrightarrow> D z = 0"
    unfolding binv_def by blast+
  from I2 have "\<forall>z\<in>set q. 0 \<le> z \<and> z < LS hk \<and> D z \<noteq> \<infinity>" by simp
  with I3 I5 assms(2) show ?thesis unfolding binv_def by simp
qed

lemma binv_head:
  assumes "binv hk D (u # q) P"
  shows "0 \<le> u \<and> u < LS hk \<and> D u \<noteq> \<infinity>"
  using assms unfolding binv_def by simp

lemma bfs_loop_inv_aux:
  "g = this_graph hk \<Longrightarrow> mr = this_matchRight hk \<Longrightarrow> shape hk \<Longrightarrow> RC hk NIL \<Longrightarrow>
   length d = nat (LS hk) + 1 \<Longrightarrow> binv hk (dget d) q {} \<Longrightarrow>
   (case bfs_loop g mr d q of
      Inr d' \<Rightarrow> length d' = nat (LS hk) + 1 \<and> binv hk (dget d') [] {}
    | Inl (e, d') \<Rightarrow> e = TypeError \<and> length d' = nat (LS hk) + 1 \<and> \<not> rows hk)"
proof (induction g mr d q rule: bfs_loop.induct)
  case (1 g mr d)
  then show ?case by simp
next
  case (2 g mr d u q)
  note g = "2.prems"(1) and mr = "2.prems"(2) and sh = "2.prems"(3) and rc = "2.prems"(4)
    and len = "2.prems"(5) and inv = "2.prems"(6)
  from binv_head[OF inv] have u: "0 \<le> u" "u < LS hk" and fin: "dget d u \<noteq> \<infinity>" by auto
  have L: "leftSize g = LS hk" "rightSize g = RS hk" using g by (simp_all add: LS_def RS_def)
  have dl: "dist_less d u (leftSize g) \<longleftrightarrow> dget d u < dget d (LS hk)"
    using u sh len by (simp add: dist_less_def L arr_get_dget shape_def)
  show ?case
  proof (cases "dist_less d u (leftSize g)")
    case True
    show ?thesis
    proof (cases "arr_get (edges g) u")
      case None
      with arr_get_row[OF _ u] g have "\<not> rows hk" by auto
      with True None len show ?thesis by simp
    next
      case (Some vs)
      with arr_get_row_eq[of hk u vs] g have vs: "vs = row hk u" by simp
      obtain d1 q1 where r: "bfs_edges (LS hk) (RS hk) (this_matchRight hk) u d q (row hk u) = (d1, q1)"
        by (cases "bfs_edges (LS hk) (RS hk) (this_matchRight hk) u d q (row hk u)")
      from bfs_edges_inv[OF sh rc u len fin subset_refl binv_pop[OF inv] r]
      have len1: "length d1 = nat (LS hk) + 1" and inv1: "binv hk (dget d1) q1 {}" by auto
      from "2.IH"(1)[OF True Some g mr sh rc] r len1 inv1 L mr vs
      have "(case bfs_loop g mr d1 q1 of
          Inr d' \<Rightarrow> length d' = nat (LS hk) + 1 \<and> binv hk (dget d') [] {}
        | Inl (e, d') \<Rightarrow> e = TypeError \<and> length d' = nat (LS hk) + 1 \<and> \<not> rows hk)"
        by simp
      with True Some vs r L mr show ?thesis by simp
    qed
  next
    case False
    with dl have "\<not> dget d u < dget d (LS hk)" by simp
    with fin have "dget d (LS hk) \<noteq> \<infinity>" by (cases "dget d (LS hk)") auto
    from binv_skip[OF inv this] have "binv hk (dget d) q {}" .
    from "2.IH"(2)[OF False g mr sh rc len this] False show ?thesis by simp
  qed
qed

lemma with_dist_fields [simp]:
  "this_graph (with_dist hk d) = this_graph hk"
  "this_matchLeft (with_dist hk d) = this_matchLeft hk"
  "this_matchRight (with_dist hk d) = this_matchRight hk"
  "this_dist (with_dist hk d) = d"
  "LS (with_dist hk d) = LS hk" "RS (with_dist hk d) = RS hk"
  "mL (with_dist hk d) = mL hk" "mR (with_dist hk d) = mR hk" "row (with_dist hk d) = row hk"
  "dd (with_dist hk d) = dget d" "nxt (with_dist hk d) = nxt hk"
  by (simp_all add: with_dist_def LS_def RS_def mL_def mR_def row_def dd_def dget_def nxt_def fun_eq_iff)

lemma bfs_post:
  assumes sh: "shape hk" and lc: "LC hk" and rc: "RC hk NIL"
  shows "(case bfs hk of
      Inr (hk', found) \<Rightarrow>
        (\<exists>d. hk' = with_dist hk d \<and> found = (dget d (LS hk) \<noteq> \<infinity>) \<and>
             length d = nat (LS hk) + 1 \<and> layered (with_dist hk d))
    | Inl (e, hk') \<Rightarrow>
        e = TypeError \<and> \<not> rows hk \<and> (\<exists>d. hk' = with_dist hk d \<and> length d = nat (LS hk) + 1))"
proof -
  obtain d0 q0 where i: "bfs_init (this_matchLeft hk) (this_dist hk) [] [0..LS hk - 1] = (d0, q0)"
    by (cases "bfs_init (this_matchLeft hk) (this_dist hk) [] [0..LS hk - 1]")
  have r: "\<forall>u\<in>set [0..LS hk - 1]. 0 \<le> u \<and> u < int (length (this_dist hk))"
    using sh by (auto simp: shape_def)
  from bfs_init_spec[OF i r] have len0: "length d0 = length (this_dist hk)"
    and D0: "dget d0 = (\<lambda>z. if z \<in> set [0..LS hk - 1] then
               (if arr_get (this_matchLeft hk) z = Some NIL then 0 else \<infinity>) else dget (this_dist hk) z)"
    and Q0: "set q0 = {u \<in> set [0..LS hk - 1]. arr_get (this_matchLeft hk) u = Some NIL}"
    by auto
  define d1 where "d1 = d0[nat (LS hk) := \<infinity>]"
  have len1: "length d1 = nat (LS hk) + 1" using len0 sh by (simp add: d1_def shape_def)
  have L0: "0 \<le> LS hk" using sh by (simp add: shape_def)
  have D1: "dget d1 = (dget d0)(LS hk := \<infinity>)"
    unfolding d1_def using L0 len0 sh by (intro dget_update) (auto simp: shape_def)
  have free: "arr_get (this_matchLeft hk) z = Some NIL \<longleftrightarrow> mL hk z = NIL" if "0 \<le> z" "z < LS hk" for z
    using arr_get_mL[OF sh that] by simp
  have Dv: "dget d1 z = (if mL hk z = NIL then 0 else \<infinity>)" if "0 \<le> z" "z < LS hk" for z
    using that free[OF that] by (simp add: D1 D0)
  have DL: "dget d1 (LS hk) = \<infinity>" by (simp add: D1)
  have Qv: "z \<in> set q0 \<longleftrightarrow> 0 \<le> z \<and> z < LS hk \<and> mL hk z = NIL" for z
    using free[of z] by (auto simp: Q0)
  have J2: "\<forall>u\<in>set q0. 0 \<le> u \<and> u < LS hk \<and> dget d1 u \<noteq> \<infinity>"
  proof
    fix u assume "u \<in> set q0"
    with Qv[of u] Dv[of u] show "0 \<le> u \<and> u < LS hk \<and> dget d1 u \<noteq> \<infinity>" by auto
  qed
  have J3: "\<forall>x. 0 \<le> x \<and> x \<le> LS hk \<and> dget d1 x \<noteq> \<infinity> \<longrightarrow>
        (x < LS hk \<and> mL hk x = NIL \<and> dget d1 x = 0) \<or>
        (\<exists>u v. 0 \<le> u \<and> u < LS hk \<and> v \<in> set (row hk u) \<and> 0 \<le> v \<and> v < RS hk \<and>
               nxt hk (mR hk v) = x \<and> dget d1 u \<noteq> \<infinity> \<and> dget d1 x = dget d1 u + 1)"
  proof (intro allI impI)
    fix x assume x: "0 \<le> x \<and> x \<le> LS hk \<and> dget d1 x \<noteq> \<infinity>"
    with DL have "x < LS hk" by (cases "x = LS hk") auto
    with x Dv[of x] have "x < LS hk \<and> mL hk x = NIL \<and> dget d1 x = 0"
      by (cases "mL hk x = NIL") auto
    then show "(x < LS hk \<and> mL hk x = NIL \<and> dget d1 x = 0) \<or>
        (\<exists>u v. 0 \<le> u \<and> u < LS hk \<and> v \<in> set (row hk u) \<and> 0 \<le> v \<and> v < RS hk \<and>
               nxt hk (mR hk v) = x \<and> dget d1 u \<noteq> \<infinity> \<and> dget d1 x = dget d1 u + 1)" by blast
  qed
  have J5: "\<forall>u. 0 \<le> u \<and> u < LS hk \<and> mL hk u = NIL \<longrightarrow> dget d1 u = 0"
    using Dv by simp
  have J4: "dget d1 (LS hk) = \<infinity> \<longrightarrow>
        (\<forall>u. 0 \<le> u \<and> u < LS hk \<and> dget d1 u \<noteq> \<infinity> \<longrightarrow>
           u \<in> set q0 \<or>
           (\<forall>v\<in>set (row hk u). (u, v) \<in> {} \<or> \<not> (0 \<le> v \<and> v < RS hk) \<or>
              (mR hk v \<noteq> NIL \<and> dget d1 (mR hk v) \<noteq> \<infinity>)))"
  proof (intro allI impI)
    fix u assume u: "0 \<le> u \<and> u < LS hk \<and> dget d1 u \<noteq> \<infinity>"
    with Dv[of u] have "mL hk u = NIL" by (cases "mL hk u = NIL") auto
    with u Qv[of u] show "u \<in> set q0 \<or>
           (\<forall>v\<in>set (row hk u). (u, v) \<in> {} \<or> \<not> (0 \<le> v \<and> v < RS hk) \<or>
              (mR hk v \<noteq> NIL \<and> dget d1 (mR hk v) \<noteq> \<infinity>))" by simp
  qed
  from J2 J3 J5 J4 have inv: "binv hk (dget d1) q0 {}"
    unfolding binv_def by blast
  note post = bfs_loop_inv_aux[OF refl refl sh rc len1 inv]
  have b: "bfs hk = (case bfs_loop (this_graph hk) (this_matchRight hk) d1 q0 of
           Inl (e, d) \<Rightarrow> Inl (e, with_dist hk d)
         | Inr d \<Rightarrow> Inr (with_dist hk d, arr_get d (LS hk) \<noteq> Some \<infinity>))"
    using i by (auto simp: bfs_def Let_def d1_def LS_def[symmetric] with_dist_def split: sum.splits)
  show ?thesis
  proof (cases "bfs_loop (this_graph hk) (this_matchRight hk) d1 q0")
    case (Inl p)
    obtain e dE where p: "p = (e, dE)" by (cases p)
    with post Inl have "e = TypeError" "length dE = nat (LS hk) + 1" "\<not> rows hk" by simp_all
    with b Inl p show ?thesis by auto
  next
    case (Inr d')
    with post have len': "length d' = nat (LS hk) + 1" and inv': "binv hk (dget d') [] {}"
      by simp_all
    have LL: "0 \<le> LS hk \<and> LS hk < int (length d')" using L0 len' by simp
    then have f: "(arr_get d' (LS hk) \<noteq> Some \<infinity>) = (dget d' (LS hk) \<noteq> \<infinity>)"
      by (simp add: arr_get_dget)
    have "layered (with_dist hk d')"
      using inv' by (simp add: layered_def binv_def)
    with b Inr f len' show ?thesis by auto
  qed
qed

lemma bfs_returns:
  assumes sh: "shape hk" and lc: "LC hk" and rc: "RC hk NIL" and rw: "rows hk"
  shows "\<exists>d. bfs hk = Inr (with_dist hk d, dget d (LS hk) \<noteq> \<infinity>) \<and>
             length d = nat (LS hk) + 1 \<and> layered (with_dist hk d)"
proof (cases "bfs hk")
  case (Inl p)
  with bfs_post[OF sh lc rc] rw show ?thesis by (cases p) simp
next
  case (Inr p)
  with bfs_post[OF sh lc rc] show ?thesis by (cases p) auto
qed

section \<open>Layered paths to the sink\<close>

lemma enat_plus1_eq: "(a::enat) + 1 = enat (Suc k) \<longleftrightarrow> a = enat k"
  by (cases a) (auto simp: one_enat_def)

lemma enat_plus1_ne0: "(a::enat) + 1 \<noteq> 0"
  by (cases a) (auto simp: one_enat_def zero_enat_def)

lemma layered_pred:
  assumes "layered hk" "0 \<le> x" "x \<le> LS hk" "dd hk x \<noteq> \<infinity>"
  shows "(x < LS hk \<and> mL hk x = NIL \<and> dd hk x = 0) \<or>
        (\<exists>u v. 0 \<le> u \<and> u < LS hk \<and> v \<in> set (row hk u) \<and> 0 \<le> v \<and> v < RS hk \<and>
               nxt hk (mR hk v) = x \<and> dd hk u \<noteq> \<infinity> \<and> dd hk x = dd hk u + 1)"
  using assms unfolding layered_def binv_def by blast

lemma layered_free:
  assumes "layered hk" "0 \<le> u" "u < LS hk" "mL hk u = NIL"
  shows "dd hk u = 0"
  using assms unfolding layered_def binv_def by blast

lemma layered_closed:
  assumes "layered hk" "dd hk (LS hk) = \<infinity>" "0 \<le> u" "u < LS hk" "dd hk u \<noteq> \<infinity>"
    "v \<in> set (row hk u)" "0 \<le> v" "v < RS hk"
  shows "mR hk v \<noteq> NIL \<and> dd hk (mR hk v) \<noteq> \<infinity>"
proof -
  from assms(1,2,3,4,5) have "u \<in> set [] \<or>
           (\<forall>v\<in>set (row hk u). (u, v) \<in> {} \<or> \<not> (0 \<le> v \<and> v < RS hk) \<or>
              (mR hk v \<noteq> NIL \<and> dd hk (mR hk v) \<noteq> \<infinity>))"
    unfolding layered_def binv_def by blast
  with assms(6,7,8) show ?thesis by auto
qed

lemma layered_back:
  assumes lay: "layered hk"
  shows "0 \<le> x \<Longrightarrow> x \<le> LS hk \<Longrightarrow> dd hk x = enat k \<Longrightarrow> x = LS hk \<or> good hk x \<Longrightarrow>
         \<exists>u0. 0 \<le> u0 \<and> u0 < LS hk \<and> mL hk u0 = NIL \<and> good hk u0"
proof (induction k arbitrary: x)
  case 0
  from 0(3) have "dd hk x \<noteq> \<infinity>" by simp
  from layered_pred[OF lay 0(1,2) this] have "(x < LS hk \<and> mL hk x = NIL \<and> dd hk x = 0) \<or>
        (\<exists>u v. 0 \<le> u \<and> u < LS hk \<and> v \<in> set (row hk u) \<and> 0 \<le> v \<and> v < RS hk \<and>
               nxt hk (mR hk v) = x \<and> dd hk u \<noteq> \<infinity> \<and> dd hk x = dd hk u + 1)" .
  then show ?case
  proof
    assume f: "x < LS hk \<and> mL hk x = NIL \<and> dd hk x = 0"
    with 0(4) have "good hk x" by auto
    with f 0(1) show ?thesis by blast
  next
    assume "\<exists>u v. 0 \<le> u \<and> u < LS hk \<and> v \<in> set (row hk u) \<and> 0 \<le> v \<and> v < RS hk \<and>
               nxt hk (mR hk v) = x \<and> dd hk u \<noteq> \<infinity> \<and> dd hk x = dd hk u + 1"
    then obtain u where "dd hk x = dd hk u + 1" by blast
    with 0(3) enat_plus1_ne0[of "dd hk u"] show ?thesis by (simp add: zero_enat_def)
  qed
next
  case (Suc k)
  from Suc.prems(3) have "dd hk x \<noteq> \<infinity>" by simp
  from layered_pred[OF lay Suc.prems(1,2) this] have "(x < LS hk \<and> mL hk x = NIL \<and> dd hk x = 0) \<or>
        (\<exists>u v. 0 \<le> u \<and> u < LS hk \<and> v \<in> set (row hk u) \<and> 0 \<le> v \<and> v < RS hk \<and>
               nxt hk (mR hk v) = x \<and> dd hk u \<noteq> \<infinity> \<and> dd hk x = dd hk u + 1)" .
  then show ?case
  proof
    assume "x < LS hk \<and> mL hk x = NIL \<and> dd hk x = 0"
    with Suc.prems(3) show ?thesis by (simp add: zero_enat_def)
  next
    assume "\<exists>u v. 0 \<le> u \<and> u < LS hk \<and> v \<in> set (row hk u) \<and> 0 \<le> v \<and> v < RS hk \<and>
               nxt hk (mR hk v) = x \<and> dd hk u \<noteq> \<infinity> \<and> dd hk x = dd hk u + 1"
    then obtain u v where u: "0 \<le> u" "u < LS hk" and v: "v \<in> set (row hk u)" "0 \<le> v" "v < RS hk"
      and x: "nxt hk (mR hk v) = x" and fin: "dd hk u \<noteq> \<infinity>" and d: "dd hk x = dd hk u + 1"
      by blast
    from d Suc.prems(3) have "dd hk u + 1 = enat (Suc k)" by simp
    then have du: "dd hk u = enat k" by (simp only: enat_plus1_eq)
    have "good hk u"
      by (rule good_step[OF u fin v x[symmetric] d Suc.prems(4)])
    then have "u = LS hk \<or> good hk u" by simp
    from Suc.IH[OF u(1) _ du this] u show ?thesis by simp
  qed
qed

lemma bfs_found_good:
  assumes "shape hk" "layered hk" "dd hk (LS hk) \<noteq> \<infinity>"
  shows "\<exists>u0. 0 \<le> u0 \<and> u0 < LS hk \<and> mL hk u0 = NIL \<and> good hk u0"
proof -
  from assms(3) obtain k where "dd hk (LS hk) = enat k" by (cases "dd hk (LS hk)") auto
  moreover have "0 \<le> LS hk" using assms(1) by (simp add: shape_def)
  ultimately show ?thesis using layered_back[OF assms(2), of "LS hk" k] by simp
qed

subsection \<open>A failed dfs leaves the good vertices good\<close>

lemma good_kill:
  assumes sh: "shape hk" and u: "0 \<le> u" "u < LS hk" and ng: "\<not> good hk u"
  shows "good (kill hk u) z \<longleftrightarrow> good hk z"
proof
  have D: "dd (kill hk u) = (dd hk)(u := \<infinity>)" using dd_kill[OF sh u(1)] u(2) by simp
  {
    assume "good (kill hk u) z"
    then show "good hk z"
    proof (induction rule: good.induct)
      case (good_step a v x)
      from good_step(3) have au: "a \<noteq> u" and da: "dd hk a \<noteq> \<infinity>" by (auto simp: D split: if_splits)
      from good_step(8) good_step(3) have "dd (kill hk u) x \<noteq> \<infinity>"
        using plus1_fin[of "dd (kill hk u) a"] by simp
      then have xu: "x \<noteq> u" by (auto simp: D)
      from good_step(8) au xu have dx: "dd hk x = dd hk a + 1" by (simp add: D)
      from good_step(9) have "x = LS hk \<or> good hk x" by auto
      with good_step(1,2,4,5,6,7) da dx show ?case
        by (intro good.good_step[of a hk v x]) (simp_all add: nxt_def)
    qed
  }
  {
    assume "good hk z"
    then show "good (kill hk u) z"
    proof (induction rule: good.induct)
      case (good_step a v x)
      have "good hk a"
        using good_step(1-8) good_step(9) by (intro good.good_step[of a hk v x]) auto
      with ng have au: "a \<noteq> u" by auto
      from good_step(9) ng u have xu: "x \<noteq> u" by auto
      from good_step(9) have "x = LS (kill hk u) \<or> good (kill hk u) x" by auto
      with good_step(1-8) au xu show ?case
        by (intro good.good_step[of a "kill hk u" v x]) (simp_all add: D nxt_def)
    qed
  }
qed

lemma good_iff_live:
  "good hk u \<longleftrightarrow> 0 \<le> u \<and> u < LS hk \<and> dd hk u \<noteq> \<infinity> \<and> (\<exists>v\<in>set (row hk u). live hk u v)"
  by (subst good.simps) (auto simp: live_def)

lemma DFS_fail_good:
  "DFS hk u vs hk' b \<Longrightarrow> dfs_pre hk u \<Longrightarrow> \<not> b \<Longrightarrow>
   (\<forall>v\<in>set (row hk u). live hk u v \<longrightarrow> v \<in> set vs) \<Longrightarrow>
   (\<forall>z. good hk' z \<longleftrightarrow> good hk z) \<and> \<not> good hk u"
proof (induction rule: DFS.induct)
  case (DFS_Nil hk u)
  from DFS_Nil(1) have sh: "shape hk" and u: "0 \<le> u" "u < LS hk" by (auto simp: dfs_pre_def)
  from DFS_Nil(3) have ng: "\<not> good hk u" by (subst good_iff_live) auto
  with good_kill[OF sh u ng] show ?case by simp
next
  case (DFS_Skip hk u v vs hk' b)
  from DFS_Skip.prems(1) have sh: "shape hk" and rc: "RC hk NIL" and u: "0 \<le> u" "u < LS hk"
    by (auto simp: dfs_pre_def)
  from DFS_Skip.hyps(1) step_Some_iff[OF sh rc u, of v "nxt hk (mR hk v)"]
  have "\<not> live hk u v" by (auto simp: live_def)
  with DFS_Skip.prems(3) have "\<forall>w\<in>set (row hk u). live hk u w \<longrightarrow> w \<in> set vs" by auto
  from DFS_Skip.IH[OF DFS_Skip.prems(1,2) this] show ?case .
next
  case (DFS_Sink hk u v vs)
  then show ?case by simp
next
  case (DFS_Succ hk u v x ns hk1 vs)
  then show ?case by simp
next
  case (DFS_Fail hk u v x ns hk1 vs hk' b)
  note pre = DFS_Fail.prems(1)
  from pre have sh: "shape hk" and rc: "RC hk NIL" and u: "0 \<le> u" "u < LS hk"
    by (auto simp: dfs_pre_def)
  from step_pre[OF pre DFS_Fail.hyps(1,2)] have px: "dfs_pre hk x" by blast
  then have "0 \<le> x" "x < LS hk" by (auto simp: dfs_pre_def)
  from arr_get_row_eq[OF DFS_Fail.hyps(3)] have ns: "ns = row hk x" by simp
  have "(\<forall>z. good hk1 z \<longleftrightarrow> good hk z) \<and> \<not> good hk x"
    by (rule DFS_Fail.IH(1)[OF px]) (simp_all add: ns)
  then have g1: "\<And>z. good hk1 z \<longleftrightarrow> good hk z" and ngx: "\<not> good hk x" by auto
  from DFS_post[OF DFS_Fail.hyps(4) px] have post1: "dpost hk x hk1 False" .
  from fail_pre[OF pre DFS_Fail.hyps(1,2) post1] have pre1: "dfs_pre hk1 u"
    and du: "dd hk1 u = dd hk u" by blast+
  note L1 = dpost_commonD(3)[OF post1] and R1 = dpost_commonD(4)[OF post1]
    and row1 = dpost_commonD(5)[OF post1] and fd1 = dpost_commonD(6)[OF post1]
    and mr1 = dpost_FalseD(4)[OF post1]
  from DFS_Fail.hyps(1) step_Some_iff[OF sh rc u, of v x] have xv: "x = nxt hk (mR hk v)" by simp
  with ngx DFS_Fail.hyps(2) have nlv: "\<not> live hk u v" by (auto simp: live_def)
  from pre have finu: "dd hk u \<noteq> \<infinity>" by (simp add: dfs_pre_def)
  have l1: "live hk u w" if "live hk1 u w" for w
  proof -
    let ?y = "nxt hk (mR hk w)"
    from that have w: "0 \<le> w" "w < RS hk" and d: "dd hk1 ?y = dd hk u + 1"
      and g: "?y = LS hk \<or> good hk ?y"
      by (auto simp: live_def L1 R1 mr1 nxt_def du g1)
    from d plus1_fin[OF finu] have "dd hk1 ?y \<noteq> \<infinity>" by simp
    with fd1[of ?y] have "dd hk1 ?y = dd hk ?y" by auto
    with w d g show ?thesis by (simp add: live_def)
  qed
  have "\<forall>w\<in>set (row hk1 u). live hk1 u w \<longrightarrow> w \<in> set vs"
  proof (intro ballI impI)
    fix w assume "w \<in> set (row hk1 u)" "live hk1 u w"
    then have "w \<in> set (row hk u)" "live hk u w" using l1 by (simp_all add: row1)
    with DFS_Fail.prems(3) nlv show "w \<in> set vs" by auto
  qed
  from DFS_Fail.IH(2)[OF pre1 DFS_Fail.prems(2) this] g1 show ?case by simp
qed

subsection \<open>Matched pairs stay edges of the graph\<close>

lemma DFS_EV:
  "DFS hk u vs hk' b \<Longrightarrow> dfs_pre hk u \<Longrightarrow> set vs \<subseteq> set (row hk u) \<Longrightarrow> EV hk \<Longrightarrow> EV hk'"
proof (induction rule: DFS.induct)
  case (DFS_Nil hk u)
  then show ?case by (simp add: EV_def)
next
  case (DFS_Skip hk u v vs hk' b)
  then show ?case by simp
next
  case (DFS_Sink hk u v vs)
  from DFS_Sink(2) have sh: "shape hk" and u: "0 \<le> u" "u < LS hk" by (auto simp: dfs_pre_def)
  from DFS_Sink(3,4) show ?case by (auto simp: EV_def mL_flip[OF sh u])
next
  case (DFS_Succ hk u v x ns hk1 vs)
  note pre = DFS_Succ.prems(1)
  from pre have sh: "shape hk" and u: "0 \<le> u" "u < LS hk" by (auto simp: dfs_pre_def)
  from step_pre[OF pre DFS_Succ.hyps(1,2)] have px: "dfs_pre hk x" by blast
  then have "0 \<le> x" "x < LS hk" by (auto simp: dfs_pre_def)
  from arr_get_row_eq[OF DFS_Succ.hyps(3)] have ns: "ns = row hk x" by simp
  from DFS_Succ.IH[OF px _ DFS_Succ.prems(3)] ns have ev1: "EV hk1" by simp
  from DFS_post[OF DFS_Succ.hyps(4) px] have post1: "dpost hk x hk1 True" .
  note sh1 = dpost_commonD(2)[OF post1] and L1 = dpost_commonD(3)[OF post1]
    and row1 = dpost_commonD(5)[OF post1]
  have "mL (flip hk1 u v) = (mL hk1)(u := v)" using mL_flip[OF sh1, of u v] u L1 by simp
  with ev1 DFS_Succ.prems(2) show ?case by (auto simp: EV_def row1)
next
  case (DFS_Fail hk u v x ns hk1 vs hk' b)
  note pre = DFS_Fail.prems(1)
  from pre have sh: "shape hk" and u: "0 \<le> u" "u < LS hk" by (auto simp: dfs_pre_def)
  from step_pre[OF pre DFS_Fail.hyps(1,2)] have px: "dfs_pre hk x" by blast
  then have "0 \<le> x" "x < LS hk" by (auto simp: dfs_pre_def)
  from arr_get_row_eq[OF DFS_Fail.hyps(3)] have ns: "ns = row hk x" by simp
  from DFS_Fail.IH(1)[OF px _ DFS_Fail.prems(3)] ns have ev1: "EV hk1" by simp
  from DFS_post[OF DFS_Fail.hyps(4) px] have post1: "dpost hk x hk1 False" .
  from fail_pre[OF pre DFS_Fail.hyps(1,2) post1] have pre1: "dfs_pre hk1 u" by blast
  note row1 = dpost_commonD(5)[OF post1]
  from DFS_Fail.IH(2)[OF pre1 _ ev1] DFS_Fail.prems(2) show ?case by (simp add: row1)
qed

section \<open>One phase and the whole search\<close>

lemma matched_range: "shape hk \<Longrightarrow> matched hk \<subseteq> {0..<LS hk}"
proof
  fix z assume "shape hk" "z \<in> matched hk"
  with mL_out[of hk z] show "z \<in> {0..<LS hk}" by (cases "0 \<le> z \<and> z < LS hk") (auto simp: matched_def)
qed

lemma finite_matched: "shape hk \<Longrightarrow> finite (matched hk)"
  by (rule finite_subset[OF matched_range]) simp_all

lemma card_matched_le: "shape hk \<Longrightarrow> card (matched hk) \<le> nat (LS hk)"
  using card_mono[OF _ matched_range[of hk]] by simp

lemma same_match_inv:
  assumes "same_match hk hk'"
  shows "LS hk' = LS hk" "RS hk' = RS hk" "mL hk' = mL hk" "mR hk' = mR hk" "row hk' = row hk"
    "engine_inv hk' = engine_inv hk" "matched hk' = matched hk" "rows hk' = rows hk"
proof -
  from assms have g: "this_graph hk' = this_graph hk"
    and l: "this_matchLeft hk' = this_matchLeft hk"
    and r: "this_matchRight hk' = this_matchRight hk"
    and d: "length (this_dist hk') = length (this_dist hk)"
    by (simp_all add: same_match_def)
  show a: "LS hk' = LS hk" "RS hk' = RS hk" "mL hk' = mL hk" "mR hk' = mR hk" "row hk' = row hk"
    using g l r by (simp_all add: LS_def RS_def mL_def mR_def row_def fun_eq_iff)
  show "engine_inv hk' = engine_inv hk"
    using a l r d by (simp add: engine_inv_def shape_def LC_def RC_def)
  show "matched hk' = matched hk" using a by (simp add: matched_def)
  show "rows hk' = rows hk" using g by (rule rows_cong)
qed

lemma same_match_EV: "same_match hk hk' \<Longrightarrow> EV hk' = EV hk"
  by (simp add: EV_def same_match_inv)

lemma err_postD:
  assumes "err_post hk e hkE"
  shows "this_graph hkE = this_graph hk" "engine_inv hkE" "matched hk \<subseteq> matched hkE"
    "EV hk \<Longrightarrow> EV hkE" "e = TypeError \<or> e = RangeError"
  using assms by (simp_all add: err_post_def)

lemma dfs_top:
  assumes inv: "engine_inv hk" and u: "0 \<le> u" "u < LS hk" and free: "mL hk u = NIL"
    and fin: "dd hk u \<noteq> \<infinity>" and r: "dfs stack hk u = Inr (hk', b)"
  shows "this_graph hk' = this_graph hk \<and>
      engine_inv hk' \<and>
      (b \<longrightarrow> matched hk' = insert u (matched hk)) \<and>
      (\<not> b \<longrightarrow> mL hk' = mL hk \<and> (\<forall>z. good hk' z \<longleftrightarrow> good hk z) \<and> \<not> good hk u) \<and>
      (\<forall>z. dd hk' z \<noteq> dd hk z \<longrightarrow> z = u \<or> mL hk z \<noteq> NIL) \<and>
      (EV hk \<longrightarrow> EV hk')"
proof -
  from inv u fin have pre: "dfs_pre hk u" by (simp add: dfs_pre_def engine_inv_def)
  from dfs_Inr[OF r pre] have
    D: "DFS hk u (row hk u) hk' b" and post: "dpost hk u hk' b" by blast+
  note g = dpost_commonD(1)[OF post] and sh' = dpost_commonD(2)[OF post]
    and fd = dpost_commonD(6)[OF post]
  have T: "engine_inv hk' \<and> matched hk' = insert u (matched hk)" if b
  proof -
    from that post have p: "dpost hk u hk' True" by simp
    note t = dpost_TrueD[OF p]
    from t(1) t(2) sh' free have "engine_inv hk'" by (simp add: engine_inv_def)
    moreover have "z \<in> matched hk' \<longleftrightarrow> z \<in> insert u (matched hk)" for z
      using t(3) t(4)[of z] free by (cases "z = u") (auto simp: matched_def)
    then have "matched hk' = insert u (matched hk)" by blast
    ultimately show ?thesis by simp
  qed
  have F: "engine_inv hk' \<and> mL hk' = mL hk \<and> (\<forall>z. good hk' z \<longleftrightarrow> good hk z) \<and> \<not> good hk u"
    if "\<not> b"
  proof -
    from that post have p: "dpost hk u hk' False" by simp
    note f = dpost_FalseD[OF p]
    note sm = same_matching[OF g f(1) f(2)]
    from inv sm sh' have "engine_inv hk'" by (simp add: engine_inv_def)
    moreover from DFS_fail_good[OF D pre that] have "(\<forall>z. good hk' z \<longleftrightarrow> good hk z) \<and> \<not> good hk u"
      by simp
    ultimately show ?thesis using f(3) by simp
  qed
  have d: "\<forall>z. dd hk' z \<noteq> dd hk z \<longrightarrow> z = u \<or> mL hk z \<noteq> NIL" using fd by blast
  have ev: "EV hk \<longrightarrow> EV hk'" using DFS_EV[OF D pre] by simp
  from g T F d ev show ?thesis by (cases b) auto
qed

text \<open>The stack bound under which no call of \<open>dfs\<close> throws.\<close>

lemma dfs_top_Inl:
  assumes inv: "engine_inv hk" and u: "0 \<le> u" "u < LS hk"
    and fin: "dd hk u \<noteq> \<infinity>" and r: "dfs stack hk u = Inl (e, hkE)"
  shows "err_post hk e hkE \<and> \<not> (rows hk \<and> nat (LS hk) < stack)"
proof -
  from inv u fin have pre: "dfs_pre hk u" by (simp add: dfs_pre_def engine_inv_def)
  from dfs_Inl[OF r] have sm: "same_match hk hkE" and e: "e = RangeError \<or> e = TypeError"
    by blast+
  have no: "\<not> (rows hk \<and> nat (LS hk) < stack)"
    using dfs_returns[OF pre, of stack] r by auto
  from sm have "this_graph hkE = this_graph hk" by (simp add: same_match_def)
  with inv same_match_inv(6,7)[OF sm] same_match_EV[OF sm] e
  have "err_post hk e hkE" by (auto simp: err_post_def)
  with no show ?thesis by simp
qed

lemma aug_postD:
  assumes "aug_post hk n hk' n'"
  shows "this_graph hk' = this_graph hk" "engine_inv hk'" "n \<le> n'"
    "matched hk \<subseteq> matched hk'"
    "int (card (matched hk')) = int (card (matched hk)) + (n' - n)"
    "EV hk \<Longrightarrow> EV hk'"
  using assms by (simp_all add: aug_post_def)

lemma aug_post_refl: "engine_inv hk \<Longrightarrow> aug_post hk n hk n"
  by (simp add: aug_post_def)

lemma aug_post_trans:
  assumes "aug_post hk n hk1 n1" "aug_post hk1 n1 hk2 n2"
  shows "aug_post hk n hk2 n2"
  using assms unfolding aug_post_def by auto

lemma aug_err_trans:
  assumes "aug_post hk n hk1 n1" "err_post hk1 e hkE"
  shows "err_post hk e hkE"
  using assms unfolding aug_post_def err_post_def by auto

lemma augment_all_post:
  assumes "engine_inv hk" "distinct us" "\<forall>u\<in>set us. 0 \<le> u \<and> u < LS hk"
    "\<forall>u\<in>set us. mL hk u = NIL \<longrightarrow> dd hk u \<noteq> \<infinity>"
  shows "(case augment_all stack hk n us of
      Inr (hk', n') \<Rightarrow> aug_post hk n hk' n' \<and>
        ((\<exists>u0\<in>set us. mL hk u0 = NIL \<and> good hk u0) \<longrightarrow> n < n')
    | Inl (e, hkE) \<Rightarrow> err_post hk e hkE \<and> \<not> (rows hk \<and> nat (LS hk) < stack))"
  using assms
proof (induction us arbitrary: hk n)
  case Nil
  then show ?case by (simp add: aug_post_refl)
next
  case (Cons u us)
  note inv = Cons.prems(1)
  from inv have sh: "shape hk" by (simp add: engine_inv_def)
  from Cons.prems(3) have u: "0 \<le> u" "u < LS hk" by auto
  from Cons.prems(2) have nu: "u \<notin> set us" and dus: "distinct us" by auto
  have fr: "arr_get (this_matchLeft hk) u = Some NIL \<longleftrightarrow> mL hk u = NIL"
    using arr_get_mL[OF sh u] by simp
  show ?case
  proof (cases "mL hk u = NIL")
    case False
    from Cons.prems(3,4) have p3: "\<forall>u\<in>set us. 0 \<le> u \<and> u < LS hk"
      and p4: "\<forall>u\<in>set us. mL hk u = NIL \<longrightarrow> dd hk u \<noteq> \<infinity>" by auto
    note IH = Cons.IH[OF inv dus p3 p4, of n]
    have eq: "augment_all stack hk n (u # us) = augment_all stack hk n us"
      using False fr by simp
    have g: "(\<exists>u0\<in>set (u # us). mL hk u0 = NIL \<and> good hk u0) \<longleftrightarrow>
             (\<exists>u0\<in>set us. mL hk u0 = NIL \<and> good hk u0)" using False by auto
    from IH show ?thesis unfolding eq g .
  next
    case True
    with Cons.prems(4) have fin: "dd hk u \<noteq> \<infinity>" by simp
    show ?thesis
    proof (cases "dfs stack hk u")
      case (Inl p)
      obtain e hkE where p: "p = (e, hkE)" by (cases p)
      from dfs_top_Inl[OF inv u fin Inl[unfolded p]] True fr Inl p
      show ?thesis by simp
    next
      case (Inr p)
      obtain hk1 b where p: "p = (hk1, b)" by (cases p)
      from Inr p have r1: "dfs stack hk u = Inr (hk1, b)" by simp
      from dfs_top[OF inv u True fin r1] have
        g1: "this_graph hk1 = this_graph hk"
        and inv1: "engine_inv hk1"
        and T: "b \<longrightarrow> matched hk1 = insert u (matched hk)"
        and F: "\<not> b \<longrightarrow> mL hk1 = mL hk \<and> (\<forall>z. good hk1 z \<longleftrightarrow> good hk z) \<and> \<not> good hk u"
        and d1: "\<forall>z. dd hk1 z \<noteq> dd hk z \<longrightarrow> z = u \<or> mL hk z \<noteq> NIL"
        and ev1: "EV hk \<longrightarrow> EV hk1" by blast+
      have L1: "LS hk1 = LS hk" using g1 by (simp add: LS_def)
      have rw1: "rows hk1 = rows hk" using g1 by (rule rows_cong)
      have sub1: "matched hk \<subseteq> matched hk1" using T F by (cases b) (auto simp: matched_def)
      have r3: "\<forall>z\<in>set us. 0 \<le> z \<and> z < LS hk1" using Cons.prems(3) L1 by simp
      have r4: "\<forall>z\<in>set us. mL hk1 z = NIL \<longrightarrow> dd hk1 z \<noteq> \<infinity>"
      proof (intro ballI impI)
        fix z assume z: "z \<in> set us" "mL hk1 z = NIL"
        with nu have zu: "z \<noteq> u" by auto
        from z(2) sub1 have free: "mL hk z = NIL" by (auto simp: matched_def)
        with d1 zu have "dd hk1 z = dd hk z" by blast
        with Cons.prems(4) z(1) free show "dd hk1 z \<noteq> \<infinity>" by simp
      qed
      define n1 where "n1 = (if b then n + 1 else n)"
      have c1: "int (card (matched hk1)) = int (card (matched hk)) + (n1 - n)"
      proof (cases b)
        case True
        with T have "matched hk1 = insert u (matched hk)" by simp
        moreover have "u \<notin> matched hk" using \<open>mL hk u = NIL\<close> by (simp add: matched_def)
        ultimately show ?thesis using finite_matched[OF sh] True by (simp add: n1_def)
      next
        case False
        with F have "matched hk1 = matched hk" by (simp add: matched_def)
        with False show ?thesis by (simp add: n1_def)
      qed
      have a1: "aug_post hk n hk1 n1"
        using g1 inv1 sub1 c1 ev1 by (simp add: aug_post_def n1_def)
      have run: "augment_all stack hk n (u # us) = augment_all stack hk1 n1 us"
        using True fr r1 by (simp add: n1_def)
      note IH = Cons.IH[OF inv1 dus r3 r4, of n1]
      show ?thesis
      proof (cases "augment_all stack hk1 n1 us")
        case (Inl q)
        obtain e hkE where q: "q = (e, hkE)" by (cases q)
        from IH Inl q have "err_post hk1 e hkE" "\<not> (rows hk1 \<and> nat (LS hk1) < stack)"
          by simp_all
        with aug_err_trans[OF a1] rw1 L1 run Inl q show ?thesis by simp
      next
        case Inr2: (Inr q)
        obtain hk' n' where q: "q = (hk', n')" by (cases q)
        from IH Inr2 q have a2: "aug_post hk1 n1 hk' n'"
          and pr: "(\<exists>u0\<in>set us. mL hk1 u0 = NIL \<and> good hk1 u0) \<longrightarrow> n1 < n'" by simp_all
        have prog: "n < n'" if "\<exists>u0\<in>set (u # us). mL hk u0 = NIL \<and> good hk u0"
        proof (cases b)
          case True
          with aug_postD(3)[OF a2] show ?thesis by (simp add: n1_def)
        next
          case False
          with F have e: "mL hk1 = mL hk" "\<And>z. good hk1 z \<longleftrightarrow> good hk z" "\<not> good hk u" by auto
          from that e(3) obtain u0 where "u0 \<in> set us" "mL hk u0 = NIL" "good hk u0" by auto
          with e have "\<exists>u0\<in>set us. mL hk1 u0 = NIL \<and> good hk1 u0" by auto
          with pr False show ?thesis by (simp add: n1_def)
        qed
        from aug_post_trans[OF a1 a2] prog run Inr2 q show ?thesis by simp
      qed
    qed
  qed
qed

lemma engine_inv_with_dist:
  "engine_inv hk \<Longrightarrow> length d = nat (LS hk) + 1 \<Longrightarrow> engine_inv (with_dist hk d)"
  by (simp add: engine_inv_def shape_def LC_def RC_def)

lemma matched_with_dist [simp]: "matched (with_dist hk d) = matched hk"
  by (simp add: matched_def)

lemma EV_with_dist [simp]: "EV (with_dist hk d) = EV hk"
  by (simp add: EV_def)

lemma rows_with_dist [simp]: "rows (with_dist hk d) = rows hk"
  by (simp add: rows_def)

text \<open>
  The loop of phases ends: a phase that finds the sink adds a pair to the matching or
  throws. It throws only when a row is missing or the stack is too small.
\<close>

lemma phases_post:
  assumes "engine_inv hk"
  shows "\<exists>r. phases stack hk n = Some r \<and>
      (case r of
         Inr (hk', n') \<Rightarrow> ph_post hk n hk' n'
       | Inl (e, hkE) \<Rightarrow> err_post hk e hkE \<and> \<not> (rows hk \<and> nat (LS hk) < stack))"
  using assms
proof (induction "nat (LS hk) - card (matched hk)" arbitrary: hk n rule: less_induct)
  case less
  note inv = less.prems
  from inv have sh: "shape hk" and lc: "LC hk" and rc: "RC hk NIL" by (auto simp: engine_inv_def)
  note bp = bfs_post[OF sh lc rc]
  show ?case
  proof (cases "bfs hk")
    case (Inl p)
    obtain e hkE where p: "p = (e, hkE)" by (cases p)
    from bp Inl p obtain d where e: "e = TypeError" and nr: "\<not> rows hk"
      and hkE: "hkE = with_dist hk d" and len: "length d = nat (LS hk) + 1" by auto
    have "err_post hk e hkE"
      using engine_inv_with_dist[OF inv len] e by (simp add: err_post_def hkE)
    moreover have "phases stack hk n = Some (Inl (e, hkE))"
      using Inl p by (subst phases.simps) simp
    ultimately show ?thesis using nr by simp
  next
    case (Inr p)
    obtain hk1 found where p: "p = (hk1, found)" by (cases p)
    from bp Inr p obtain d where hk1: "hk1 = with_dist hk d"
      and found: "found = (dget d (LS hk) \<noteq> \<infinity>)"
      and len: "length d = nat (LS hk) + 1" and lay: "layered hk1" by auto
    have b: "bfs hk = Inr (hk1, found)" using Inr p by simp
    have inv1: "engine_inv hk1" unfolding hk1 by (rule engine_inv_with_dist[OF inv len])
    then have sh1: "shape hk1" by (simp add: engine_inv_def)
    have L1: "LS hk1 = LS hk" and g1: "this_graph hk1 = this_graph hk"
      and dd1: "dd hk1 = dget d" and m1: "matched hk1 = matched hk" and ev1: "EV hk1 = EV hk"
      and rw1: "rows hk1 = rows hk"
      by (simp_all add: hk1)
    have a01: "aug_post hk n hk1 n" using g1 inv1 m1 ev1 by (simp add: aug_post_def)
    show ?thesis
    proof (cases found)
      case False
      with b have "phases stack hk n = Some (Inr (hk1, n))"
        by (subst phases.simps) simp
      moreover have "dd hk1 (LS hk1) = \<infinity>" using False found by (simp add: dd1 L1)
      ultimately show ?thesis using a01 lay by (simp add: ph_post_def)
    next
      case True
      then have fnd: "dd hk1 (LS hk1) \<noteq> \<infinity>" using found by (simp add: dd1 L1)
      from bfs_found_good[OF sh1 lay fnd] obtain u0 where
        u0: "0 \<le> u0" "u0 < LS hk1" "mL hk1 u0 = NIL" "good hk1 u0" by blast
      have a2: "distinct [0..LS hk1 - 1]" by simp
      have a3: "\<forall>u\<in>set [0..LS hk1 - 1]. 0 \<le> u \<and> u < LS hk1" by auto
      have a4: "\<forall>u\<in>set [0..LS hk1 - 1]. mL hk1 u = NIL \<longrightarrow> dd hk1 u \<noteq> \<infinity>"
      proof (intro ballI impI)
        fix u assume "u \<in> set [0..LS hk1 - 1]" "mL hk1 u = NIL"
        then have "dd hk1 u = 0" using layered_free[OF lay, of u] by auto
        then show "dd hk1 u \<noteq> \<infinity>" by simp
      qed
      have ex: "\<exists>u0\<in>set [0..LS hk1 - 1]. mL hk1 u0 = NIL \<and> good hk1 u0" using u0 by auto
      note ap = augment_all_post[OF inv1 a2 a3 a4, of stack n]
      have unf: "phases stack hk n =
          (case augment_all stack hk1 n [0..LS hk1 - 1] of
             Inl e \<Rightarrow> Some (Inl e) | Inr (hk2, n2) \<Rightarrow> phases stack hk2 n2)"
        using b True by (subst phases.simps) (simp add: LS_def)
      show ?thesis
      proof (cases "augment_all stack hk1 n [0..LS hk1 - 1]")
        case (Inl q)
        obtain e hkE where q: "q = (e, hkE)" by (cases q)
        from ap Inl q have "err_post hk1 e hkE" "\<not> (rows hk1 \<and> nat (LS hk1) < stack)"
          by simp_all
        with aug_err_trans[OF a01] rw1 L1 unf Inl q show ?thesis by simp
      next
        case Inr2: (Inr q)
        obtain hk2 n2 where q: "q = (hk2, n2)" by (cases q)
        from ap Inr2 q ex have p2: "aug_post hk1 n hk2 n2" and lt: "n < n2" by simp_all
        note a02 = aug_post_trans[OF a01 p2]
        have L2: "LS hk2 = LS hk" using aug_postD(1)[OF a02] by (simp add: LS_def)
        have rw2: "rows hk2 = rows hk" using aug_postD(1)[OF a02] by (rule rows_cong)
        note inv2 = aug_postD(2)[OF p2]
        then have sh2: "shape hk2" by (simp add: engine_inv_def)
        from aug_postD(5)[OF a02] lt have "card (matched hk) < card (matched hk2)" by simp
        moreover from card_matched_le[OF sh2] L2 have "card (matched hk2) \<le> nat (LS hk)" by simp
        ultimately have "nat (LS hk2) - card (matched hk2) < nat (LS hk) - card (matched hk)"
          using L2 by simp
        from less.hyps[OF this inv2, of n2] obtain r where
          r: "phases stack hk2 n2 = Some r" and
          pr: "(case r of
                 Inr (hk', n') \<Rightarrow> ph_post hk2 n2 hk' n'
               | Inl (e, hkE) \<Rightarrow> err_post hk2 e hkE \<and> \<not> (rows hk2 \<and> nat (LS hk2) < stack))"
          by blast
        have run: "phases stack hk n = Some r" using unf Inr2 q r by simp
        show ?thesis
        proof (cases r)
          case (Inl w)
          obtain e hkE where w: "w = (e, hkE)" by (cases w)
          from pr Inl w have "err_post hk2 e hkE" "\<not> (rows hk2 \<and> nat (LS hk2) < stack)"
            by simp_all
          with aug_err_trans[OF a02] rw2 L2 run Inl w show ?thesis by simp
        next
          case Inr3: (Inr w)
          obtain hk' n' where w: "w = (hk', n')" by (cases w)
          from pr Inr3 w have "ph_post hk2 n2 hk' n'" by simp
          then have "ph_post hk n hk' n'"
            using aug_post_trans[OF a02] by (simp add: ph_post_def)
          with run Inr3 w show ?thesis by simp
        qed
      qed
    qed
  qed
qed

section \<open>Counting matched vertices\<close>

lemma count_matched_left:
  "length (filter (\<lambda>x. x \<noteq> NIL) (this_matchLeft hk)) = card (matched hk)"
proof -
  let ?ml = "this_matchLeft hk"
  let ?I = "{i. i < length ?ml \<and> ?ml ! i \<noteq> NIL}"
  have "matched hk = int ` ?I"
  proof (intro set_eqI iffI)
    fix z assume "z \<in> matched hk"
    then have "0 \<le> z" "z < int (length ?ml)" "?ml ! nat z \<noteq> NIL"
      by (auto simp: matched_def mL_def arr_get_def split: if_splits)
    then have "nat z \<in> ?I" "z = int (nat z)" by auto
    then show "z \<in> int ` ?I" by blast
  next
    fix z assume "z \<in> int ` ?I"
    then show "z \<in> matched hk" by (auto simp: matched_def mL_def arr_get_def)
  qed
  then have "card (matched hk) = card ?I" by (simp add: card_image)
  then show ?thesis by (simp add: length_filter_conv_card)
qed

lemma count_matched_right:
  "length (filter (\<lambda>x. x \<noteq> NIL) (this_matchRight hk)) = card (matchedR hk)"
proof -
  let ?mr = "this_matchRight hk"
  let ?I = "{i. i < length ?mr \<and> ?mr ! i \<noteq> NIL}"
  have "matchedR hk = int ` ?I"
  proof (intro set_eqI iffI)
    fix z assume "z \<in> matchedR hk"
    then have "0 \<le> z" "z < int (length ?mr)" "?mr ! nat z \<noteq> NIL"
      by (auto simp: matchedR_def mR_def arr_get_def split: if_splits)
    then have "nat z \<in> ?I" "z = int (nat z)" by auto
    then show "z \<in> int ` ?I" by blast
  next
    fix z assume "z \<in> int ` ?I"
    then show "z \<in> matchedR hk" by (auto simp: matchedR_def mR_def arr_get_def)
  qed
  then have "card (matchedR hk) = card ?I" by (simp add: card_image)
  then show ?thesis by (simp add: length_filter_conv_card)
qed

lemma matched_cases:
  assumes "engine_inv hk" "z \<in> matched hk"
  shows "0 \<le> z \<and> z < LS hk \<and> 0 \<le> mL hk z \<and> mL hk z < RS hk \<and> mR hk (mL hk z) = z"
proof -
  from assms(1) have sh: "shape hk" and lc: "LC hk" by (auto simp: engine_inv_def)
  from matched_range[OF sh] assms(2) have "0 \<le> z \<and> z < LS hk" by auto
  with lc assms(2) show ?thesis by (auto simp: LC_def matched_def)
qed

lemma matchedR_cases:
  assumes "engine_inv hk" "v \<in> matchedR hk"
  shows "0 \<le> v \<and> v < RS hk \<and> 0 \<le> mR hk v \<and> mR hk v < LS hk \<and> mL hk (mR hk v) = v"
proof -
  from assms(1) have sh: "shape hk" and rc: "RC hk NIL" by (auto simp: engine_inv_def)
  from assms(2) mR_out[OF sh, of v] have r: "0 \<le> v \<and> v < RS hk"
    by (cases "0 \<le> v \<and> v < RS hk") (auto simp: matchedR_def)
  with rc assms(2) NIL_neg show ?thesis by (auto simp: RC_def matchedR_def)
qed

lemma card_matched_sides:
  assumes "engine_inv hk"
  shows "card (matchedR hk) = card (matched hk)"
proof -
  have "bij_betw (mL hk) (matched hk) (matchedR hk)"
  proof (rule bij_betw_byWitness[where f' = "mR hk"])
    show "\<forall>z\<in>matched hk. mR hk (mL hk z) = z"
      using matched_cases[OF assms] by simp
    show "\<forall>v\<in>matchedR hk. mL hk (mR hk v) = v"
      using matchedR_cases[OF assms] by simp
    show "mL hk ` matched hk \<subseteq> matchedR hk"
    proof
      fix v assume "v \<in> mL hk ` matched hk"
      then obtain z where z: "z \<in> matched hk" "v = mL hk z" by blast
      from matched_cases[OF assms z(1)] z(2) NIL_neg show "v \<in> matchedR hk"
        by (auto simp: matchedR_def)
    qed
    show "mR hk ` matchedR hk \<subseteq> matched hk"
    proof
      fix z assume "z \<in> mR hk ` matchedR hk"
      then obtain v where v: "v \<in> matchedR hk" "z = mR hk v" by blast
      from matchedR_cases[OF assms v(1)] v(2) NIL_neg show "z \<in> matched hk"
        by (auto simp: matched_def)
    qed
  qed
  then show ?thesis by (simp add: bij_betw_same_card)
qed

lemma card_matchedR_le: "shape hk \<Longrightarrow> card (matchedR hk) \<le> nat (RS hk)"
proof -
  assume sh: "shape hk"
  have "matchedR hk \<subseteq> {0..<RS hk}"
  proof
    fix v assume "v \<in> matchedR hk"
    with mR_out[OF sh, of v] show "v \<in> {0..<RS hk}"
      by (cases "0 \<le> v \<and> v < RS hk") (auto simp: matchedR_def)
  qed
  from card_mono[OF _ this] show ?thesis by simp
qed

section \<open>No larger matching\<close>

lemma cover_bound:
  assumes inv: "engine_inv hk" and lay: "layered hk" and nf: "dd hk (LS hk) = \<infinity>"
    and edges: "\<forall>(u, v)\<in>M. 0 \<le> u \<and> u < LS hk \<and> 0 \<le> v \<and> v < RS hk \<and> v \<in> set (row hk u)"
    and injl: "inj_on fst M" and injr: "inj_on snd M"
  shows "finite M \<and> card M \<le> card (matched hk)"
proof -
  from inv have sh: "shape hk" and rc: "RC hk NIL" by (auto simp: engine_inv_def)
  define A where "A = {u. 0 \<le> u \<and> u < LS hk \<and> dd hk u = \<infinity>}"
  define B where "B = {v. 0 \<le> v \<and> v < RS hk \<and>
                     (\<exists>u. 0 \<le> u \<and> u < LS hk \<and> dd hk u \<noteq> \<infinity> \<and> v \<in> set (row hk u))}"
  define MA where "MA = {e \<in> M. fst e \<in> A}"
  define MB where "MB = {e \<in> M. fst e \<notin> A}"
  have "M \<subseteq> {0..<LS hk} \<times> {0..<RS hk}" using edges by auto
  then have finM: "finite M" by (rule finite_subset) simp
  have finA: "finite A" by (rule finite_subset[of _ "{0..<LS hk}"]) (auto simp: A_def)
  have finB: "finite B" by (rule finite_subset[of _ "{0..<RS hk}"]) (auto simp: B_def)
  have Am: "A \<subseteq> matched hk"
  proof
    fix u assume "u \<in> A"
    then have u: "0 \<le> u" "u < LS hk" "dd hk u = \<infinity>" by (auto simp: A_def)
    have "mL hk u \<noteq> NIL"
    proof
      assume "mL hk u = NIL"
      from layered_free[OF lay u(1,2) this] u(3) show False by simp
    qed
    then show "u \<in> matched hk" by (simp add: matched_def)
  qed
  have Bp: "mR hk v \<noteq> NIL \<and> 0 \<le> mR hk v \<and> mR hk v < LS hk \<and> dd hk (mR hk v) \<noteq> \<infinity> \<and>
            mL hk (mR hk v) = v" if "v \<in> B" for v
  proof -
    from that obtain u where v: "0 \<le> v" "v < RS hk" and u: "0 \<le> u" "u < LS hk" "dd hk u \<noteq> \<infinity>"
      and r: "v \<in> set (row hk u)" by (auto simp: B_def)
    from layered_closed[OF lay nf u r v] have c: "mR hk v \<noteq> NIL" "dd hk (mR hk v) \<noteq> \<infinity>" by auto
    from c(1) have "v \<in> matchedR hk" by (simp add: matchedR_def)
    from matchedR_cases[OF inv this] c show ?thesis by simp
  qed
  have Bm: "mR hk ` B \<subseteq> matched hk - A"
  proof
    fix z assume "z \<in> mR hk ` B"
    then obtain v where v: "v \<in> B" "z = mR hk v" by blast
    from Bp[OF v(1)] v(2) have "mL hk z = v" "dd hk z \<noteq> \<infinity>" by auto
    moreover from v(1) have "0 \<le> v" by (simp add: B_def)
    ultimately show "z \<in> matched hk - A" using NIL_neg by (auto simp: matched_def A_def)
  qed
  have injB: "inj_on (mR hk) B"
  proof (rule inj_onI)
    fix v w assume "v \<in> B" "w \<in> B" "mR hk v = mR hk w"
    with Bp[of v] Bp[of w] show "v = w" by metis
  qed
  have fA: "fst ` MA \<subseteq> A" by (auto simp: MA_def)
  have sB: "snd ` MB \<subseteq> B"
  proof
    fix v assume "v \<in> snd ` MB"
    then obtain u where e: "(u, v) \<in> M" "u \<notin> A" by (auto simp: MB_def)
    with edges have "0 \<le> u \<and> u < LS hk \<and> 0 \<le> v \<and> v < RS hk \<and> v \<in> set (row hk u)" by auto
    with e(2) show "v \<in> B" by (auto simp: A_def B_def)
  qed
  have "MA \<subseteq> M" "MB \<subseteq> M" by (auto simp: MA_def MB_def)
  then have finMA: "finite MA" and finMB: "finite MB"
    and iA: "inj_on fst MA" and iB: "inj_on snd MB"
    using finM injl injr by (auto intro: finite_subset inj_on_subset)
  have "M = MA \<union> MB" "MA \<inter> MB = {}" by (auto simp: MA_def MB_def)
  then have "card M = card MA + card MB" using finMA finMB by (simp add: card_Un_disjoint)
  also have "card MA = card (fst ` MA)" using iA by (simp add: card_image)
  also have "card MB = card (snd ` MB)" using iB by (simp add: card_image)
  also have "card (fst ` MA) \<le> card A" by (rule card_mono[OF finA fA])
  also have "card (snd ` MB) \<le> card B" by (rule card_mono[OF finB sB])
  also have "card B = card (mR hk ` B)" using injB by (simp add: card_image)
  also have "card A + card (mR hk ` B) = card (A \<union> mR hk ` B)"
    using finA finB Bm by (subst card_Un_disjoint) auto
  also have "\<dots> \<le> card (matched hk)"
    by (rule card_mono[OF finite_matched[OF sh]]) (use Am Bm in auto)
  finally have "card M \<le> card (matched hk)" by simp
  with finM show ?thesis by simp
qed

section \<open>The constructor\<close>

lemma new_HopcroftKarp_inv:
  assumes "new_HopcroftKarp g = Inr hk"
  shows "this_graph hk = g \<and> engine_inv hk \<and> matched hk = {} \<and> matchedR hk = {} \<and> EV hk \<and>
         leftSize g < 4294967295"
proof -
  from assms have nn: "0 \<le> leftSize g" "0 \<le> rightSize g" "leftSize g < 4294967295"
    and hk: "hk = \<lparr>this_graph = g,
                this_matchLeft = replicate (nat (leftSize g)) NIL,
                this_matchRight = replicate (nat (rightSize g)) NIL,
                this_dist = replicate (nat (leftSize g + 1)) 0\<rparr>"
    by (auto simp: new_HopcroftKarp_def array_length_ok_def max_array_length_def split: if_splits)
  have g: "this_graph hk = g" by (simp add: hk)
  have sh: "shape hk" using nn by (simp add: shape_def hk LS_def RS_def nat_add_distrib)
  have ml: "mL hk z = NIL" for z by (simp add: mL_def hk arr_get_def)
  have mr: "mR hk z = NIL" for z by (simp add: mR_def hk arr_get_def)
  from sh ml mr have "engine_inv hk" by (simp add: engine_inv_def LC_def RC_def)
  moreover have "matched hk = {}" using ml by (simp add: matched_def)
  moreover have "matchedR hk = {}" using mr by (simp add: matchedR_def)
  moreover have "EV hk" using ml by (simp add: EV_def)
  ultimately show ?thesis using g nn by simp
qed

lemma new_HopcroftKarp_ok:
  "(\<exists>hk. new_HopcroftKarp g = Inr hk) \<longleftrightarrow>
   0 \<le> leftSize g \<and> leftSize g < 4294967295 \<and> 0 \<le> rightSize g \<and> rightSize g \<le> 4294967295"
  by (auto simp: new_HopcroftKarp_def array_length_ok_def max_array_length_def)

lemma createBipartiteGraph_shape:
  assumes "createBipartiteGraph l r es opts = Inr g"
  shows "leftSize g = l \<and> rightSize g = r \<and> length (edges g) = nat l"
proof -
  from assms obtain adj where
    run: "add_edges l r (opt_validate opts) (opt_skip opts) (replicate (nat l) []) es = Inr adj"
    and g: "g = \<lparr>leftSize = l, rightSize = r, edges = adj\<rparr>"
    by (auto simp: createBipartiteGraph_def split: if_splits sum.splits)
  have len: "length (replicate (nat l) ([]::int list)) = nat l" by simp
  from add_edges_spec[OF len run] g show ?thesis by simp
qed

section \<open>The graph is never written\<close>

lemma bfs_graph:
  "bfs hk = Inr (hk1, found) \<Longrightarrow> this_graph hk1 = this_graph hk"
  by (auto simp: bfs_def Let_def split: prod.splits sum.splits)

lemma dfs_graph:
  assumes "dfs stack hk u = Inr (hk', b)"
  shows "this_graph hk' = this_graph hk"
proof (cases stack)
  case 0
  with assms show ?thesis by (simp add: dfs_def)
next
  case (Suc s)
  show ?thesis
  proof (cases "u = leftSize (this_graph hk)")
    case True
    with assms Suc show ?thesis by (simp add: dfs_def)
  next
    case False
    with assms Suc obtain vs where "dfs_loop s hk u vs = Inr (hk', b)"
      by (auto simp: dfs_def split: option.splits)
    from DFS_frame[OF DFS_complete[OF this]] show ?thesis by simp
  qed
qed

lemma augment_all_graph:
  "augment_all stack hk n us = Inr (hk', n') \<Longrightarrow> this_graph hk' = this_graph hk"
proof (induction us arbitrary: hk n)
  case Nil
  then show ?case by simp
next
  case (Cons u us)
  show ?case
  proof (cases "arr_get (this_matchLeft hk) u = Some NIL")
    case False
    with Cons.prems have "augment_all stack hk n us = Inr (hk', n')" by simp
    from Cons.IH[OF this] show ?thesis .
  next
    case True
    show ?thesis
    proof (cases "dfs stack hk u")
      case (Inl e)
      with True Cons.prems show ?thesis by simp
    next
      case (Inr p)
      obtain hk1 ok where p: "p = (hk1, ok)" by (cases p)
      with True Inr Cons.prems
      have "augment_all stack hk1 (if ok then n + 1 else n) us = Inr (hk', n')" by simp
      from Cons.IH[OF this] dfs_graph[OF Inr[unfolded p]] show ?thesis by simp
    qed
  qed
qed

lemmas phases_raw_induct = phases.raw_induct[rotated 1, consumes 1, case_names step]

lemma phases_graph:
  "phases stack hk n = Some r \<Longrightarrow> \<forall>hk' n'. r = Inr (hk', n') \<longrightarrow> this_graph hk' = this_graph hk"
proof (induction rule: phases_raw_induct)
  case (step phases stack hk n r)
  show ?case
  proof (intro allI impI)
    fix hk' n' assume r: "r = Inr (hk', n')"
    show "this_graph hk' = this_graph hk"
    proof (cases "bfs hk")
      case (Inl e)
      with step(2) r show ?thesis by simp
    next
      case (Inr p)
      obtain hk1 found where p: "p = (hk1, found)" by (cases p)
      note g1 = bfs_graph[OF Inr[unfolded p]]
      show ?thesis
      proof (cases found)
        case False
        with step(2) Inr p r g1 show ?thesis by simp
      next
        case True
        show ?thesis
        proof (cases "augment_all stack hk1 n [0..leftSize (this_graph hk1) - 1]")
          case (Inl e)
          with step(2) Inr p True r show ?thesis by simp
        next
          case Inr2: (Inr q)
          obtain hk2 n2 where q: "q = (hk2, n2)" by (cases q)
          from step(2) Inr p True Inr2 q have "phases stack hk2 n2 = Some r" by simp
          from step(1)[OF this] r have "this_graph hk' = this_graph hk2" by simp
          with augment_all_graph[OF Inr2[unfolded q]] g1 show ?thesis by simp
        qed
      qed
    qed
  qed
qed

lemma findMaximumMatching_graph:
  assumes "findMaximumMatching stack hk = Some (Inr (m, hk'))"
  shows "this_graph hk' = this_graph hk"
proof -
  from assms obtain n' where "phases stack hk 0 = Some (Inr (hk', n'))"
    by (auto simp: findMaximumMatching_def split: option.splits sum.splits)
  from phases_graph[OF this] show ?thesis by simp
qed

section \<open>A larger stack changes no returned value\<close>






section \<open>One call of findMaximumMatching\<close>

lemma findMaximumMatching_post:
  assumes "engine_inv hk"
  shows "\<exists>r. findMaximumMatching stack hk = Some r \<and>
      (case r of
         Inr (m, hk') \<Rightarrow> fmm_post hk m hk'
       | Inl (e, hkE) \<Rightarrow> err_post hk e hkE \<and> \<not> (rows hk \<and> nat (LS hk) < stack))"
proof -
  from phases_post[OF assms, of stack 0] obtain r where
    r: "phases stack hk 0 = Some r" and
    p: "(case r of
         Inr (hk', n') \<Rightarrow> ph_post hk 0 hk' n'
       | Inl (e, hkE) \<Rightarrow> err_post hk e hkE \<and> \<not> (rows hk \<and> nat (LS hk) < stack))"
    by blast
  show ?thesis
  proof (cases r)
    case (Inl q)
    with r p show ?thesis by (simp add: findMaximumMatching_def)
  next
    case (Inr q)
    obtain hk' n' where q: "q = (hk', n')" by (cases q)
    from p Inr q have a: "aug_post hk 0 hk' n'" and l: "layered hk'" "dd hk' (LS hk') = \<infinity>"
      by (simp_all add: ph_post_def)
    from aug_postD(5)[OF a] have "n' = int (card (matched hk')) - int (card (matched hk))" by simp
    with a l have "fmm_post hk \<lparr>matchLeft = this_matchLeft hk', matchRight = this_matchRight hk',
        size_m = n'\<rparr> hk'"
      by (simp add: fmm_post_def aug_post_def)
    with r Inr q show ?thesis by (simp add: findMaximumMatching_def)
  qed
qed

lemma findMaximumMatching_Inr:
  assumes "engine_inv hk" "findMaximumMatching stack hk = Some (Inr (m, hk'))"
  shows "fmm_post hk m hk'"
  using findMaximumMatching_post[OF assms(1), of stack] assms(2) by auto

lemma findMaximumMatching_Inl:
  assumes "engine_inv hk" "findMaximumMatching stack hk = Some (Inl (e, hkE))"
  shows "err_post hk e hkE"
  using findMaximumMatching_post[OF assms(1), of stack] assms(2) by auto

lemma findMaximumMatching_returns:
  assumes "engine_inv hk" "rows hk" "nat (LS hk) < stack"
  shows "\<exists>m hk'. findMaximumMatching stack hk = Some (Inr (m, hk'))"
proof -
  from findMaximumMatching_post[OF assms(1), of stack] obtain r where
    r: "findMaximumMatching stack hk = Some r" and
    p: "(case r of
         Inr (m, hk') \<Rightarrow> fmm_post hk m hk'
       | Inl (e, hkE) \<Rightarrow> err_post hk e hkE \<and> \<not> (rows hk \<and> nat (LS hk) < stack))"
    by blast
  show ?thesis
  proof (cases r)
    case (Inl q)
    with p assms(2,3) show ?thesis by (cases q) simp
  next
    case (Inr q)
    with r show ?thesis by (cases q) simp
  qed
qed

section \<open>Histories of an engine\<close>

lemma set_edges_inv:
  "LS (set_edges hk es) = LS hk" "RS (set_edges hk es) = RS hk"
  "engine_inv (set_edges hk es) = engine_inv hk"
  by (simp_all add: set_edges_def LS_def RS_def engine_inv_def shape_def LC_def RC_def
      mL_def mR_def)

lemma after_use_inv:
  assumes "after_use hk0 hk" "engine_inv hk0"
  shows "engine_inv hk \<and> LS hk = LS hk0 \<and> RS hk = RS hk0"
  using assms
proof (induction rule: after_use.induct)
  case (use_none hk0)
  then show ?case by simp
next
  case (use_return hk0 hk stack m hk')
  then have inv: "engine_inv hk" and s: "LS hk = LS hk0" "RS hk = RS hk0" by simp_all
  from findMaximumMatching_Inr[OF inv use_return.hyps(2)]
  have "engine_inv hk'" "this_graph hk' = this_graph hk" by (simp_all add: fmm_post_def)
  with s show ?case by (simp add: LS_def RS_def)
next
  case (use_throw hk0 hk stack e hk')
  then have inv: "engine_inv hk" and s: "LS hk = LS hk0" "RS hk = RS hk0" by simp_all
  from findMaximumMatching_Inl[OF inv use_throw.hyps(2)]
  have "engine_inv hk'" "this_graph hk' = this_graph hk" by (simp_all add: err_post_def)
  with s show ?case by (simp add: LS_def RS_def)
next
  case (use_mutate hk0 hk es)
  then show ?case by (simp add: set_edges_inv)
qed

lemma after_calls_inv:
  assumes "after_calls hk0 hk" "engine_inv hk0" "EV hk0"
  shows "engine_inv hk \<and> EV hk \<and> this_graph hk = this_graph hk0"
  using assms
proof (induction rule: after_calls.induct)
  case (calls_none hk0)
  then show ?case by simp
next
  case (calls_return hk0 hk stack m hk')
  then have inv: "engine_inv hk" and s: "EV hk" "this_graph hk = this_graph hk0" by simp_all
  from findMaximumMatching_Inr[OF inv calls_return.hyps(2)] s
  show ?case by (simp add: fmm_post_def)
next
  case (calls_throw hk0 hk stack e hk')
  then have inv: "engine_inv hk" and s: "EV hk" "this_graph hk = this_graph hk0" by simp_all
  from findMaximumMatching_Inl[OF inv calls_throw.hyps(2)] s
  show ?case by (simp add: err_post_def)
qed

section \<open>Matchings of a graph\<close>

lemma pairs_matched:
  assumes "matchLeft m = this_matchLeft hk"
  shows "pairs m = (\<lambda>u. (u, mL hk u)) ` matched hk"
  using assms by (auto simp: pairs_def matched_def mL_def split: option.splits)

lemma card_pairs:
  assumes "matchLeft m = this_matchLeft hk"
  shows "card (pairs m) = card (matched hk)"
proof -
  have "inj_on (\<lambda>u. (u, mL hk u)) (matched hk)" by (rule inj_onI) simp
  then show ?thesis unfolding pairs_matched[OF assms] by (rule card_image)
qed

lemma pairs_is_matching:
  assumes inv: "engine_inv hk" and ev: "EV hk" and rw: "rows hk"
    and m: "matchLeft m = this_matchLeft hk"
  shows "is_matching (this_graph hk) (pairs m)"
proof -
  have a: "0 \<le> u \<and> u < leftSize (this_graph hk) \<and> 0 \<le> v \<and> v < rightSize (this_graph hk) \<and>
        (\<exists>vs. arr_get (edges (this_graph hk)) u = Some vs \<and> v \<in> set vs)"
    if "(u, v) \<in> pairs m" for u v
  proof -
    from that have u: "u \<in> matched hk" and v: "v = mL hk u"
      by (auto simp: pairs_matched[OF m])
    from matched_cases[OF inv u] have r: "0 \<le> u" "u < LS hk" "0 \<le> v" "v < RS hk"
      by (simp_all add: v)
    from ev u have "v \<in> set (row hk u)" by (simp add: EV_def matched_def v)
    with arr_get_row[OF rw r(1,2)] r show ?thesis by (auto simp: LS_def RS_def)
  qed
  have b: "(u = u') = (v = v')" if "(u, v) \<in> pairs m" "(u', v') \<in> pairs m" for u v u' v'
  proof -
    from that have u: "u \<in> matched hk" "u' \<in> matched hk" and v: "v = mL hk u" "v' = mL hk u'"
      by (auto simp: pairs_matched[OF m])
    from matched_cases[OF inv u(1)] matched_cases[OF inv u(2)] v
    have r: "mR hk v = u" "mR hk v' = u'" by simp_all
    show ?thesis
    proof
      assume "u = u'"
      then show "v = v'" unfolding v by (rule arg_cong)
    next
      assume "v = v'"
      then have "mR hk v = mR hk v'" by (rule arg_cong)
      then show "u = u'" unfolding r .
    qed
  qed
  from a b show ?thesis unfolding is_matching_def by blast
qed

lemma matching_bound:
  assumes inv: "engine_inv hk" and lay: "layered hk" and nf: "dd hk (LS hk) = \<infinity>"
    and M: "is_matching (this_graph hk) M"
  shows "finite M \<and> card M \<le> card (matched hk)"
proof (rule cover_bound[OF inv lay nf])
  show "\<forall>(u, v)\<in>M. 0 \<le> u \<and> u < LS hk \<and> 0 \<le> v \<and> v < RS hk \<and> v \<in> set (row hk u)"
  proof (clarify)
    fix u v assume "(u, v) \<in> M"
    with M obtain vs where "0 \<le> u" "u < LS hk" "0 \<le> v" "v < RS hk"
      "arr_get (edges (this_graph hk)) u = Some vs" "v \<in> set vs"
      by (auto simp: is_matching_def LS_def RS_def)
    with arr_get_row_eq[of hk u vs]
    show "0 \<le> u \<and> u < LS hk \<and> 0 \<le> v \<and> v < RS hk \<and> v \<in> set (row hk u)" by simp
  qed
  show "inj_on fst M"
  proof (rule inj_onI)
    fix p q assume "p \<in> M" "q \<in> M" "fst p = fst q"
    with M show "p = q" by (cases p; cases q) (auto simp: is_matching_def)
  qed
  show "inj_on snd M"
  proof (rule inj_onI)
    fix p q assume "p \<in> M" "q \<in> M" "snd p = snd q"
    with M show "p = q" by (cases p; cases q) (auto simp: is_matching_def)
  qed
qed

lemma arr_get_mL_iff: "arr_get (this_matchLeft hk) u = Some v \<and> v \<noteq> NIL \<longleftrightarrow> u \<in> matched hk \<and> mL hk u = v"
  by (auto simp: matched_def mL_def split: option.splits)

lemma arr_get_mR_iff: "arr_get (this_matchRight hk) v = Some u \<and> u \<noteq> NIL \<longleftrightarrow> v \<in> matchedR hk \<and> mR hk v = u"
  by (auto simp: matchedR_def mR_def split: option.splits)

section \<open>Out-of-range adjacency entries\<close>

lemma skip_bfs:
  "v < 0 \<or> v \<ge> R \<Longrightarrow> bfs_edges L R mr u d q (v # vs) = bfs_edges L R mr u d q vs"
  by simp

lemma skip_dfs:
  "v < 0 \<or> v \<ge> rightSize (this_graph hk) \<Longrightarrow> dfs_loop s hk u (v # vs) = dfs_loop s hk u vs"
  by (simp add: dfs_loop_Cons step_def RS_def)

section \<open>The engine's arrays in a store\<close>

lemma store_back_frame:
  assumes "store_back e hk st = (e1, st1)"
  shows "matchLeft_at e1 = matchLeft_at e" "matchRight_at e1 = matchRight_at e"
    "graph_of e1 = graph_of e" "fresh st1 = fresh st"
    "\<And>a. a \<noteq> matchLeft_at e \<Longrightarrow> a \<noteq> matchRight_at e \<Longrightarrow> cells st1 a = cells st a"
  using assms by (auto simp: store_back_def write_array_def)

lemma findMaximumMatching_obj_frame:
  assumes "findMaximumMatching_obj stack e st = Some r"
  shows "\<forall>a. a \<noteq> matchLeft_at e \<and> a \<noteq> matchRight_at e \<and> a < fresh st \<longrightarrow>
           cells (store_after r) a = cells st a"
proof (cases "findMaximumMatching stack (load e st)")
  case None
  with assms show ?thesis by (simp add: findMaximumMatching_obj_def)
next
  case (Some x)
  show ?thesis
  proof (cases x)
    case (Inl p)
    obtain err hkE where p: "p = (err, hkE)" by (cases p)
    obtain e1 st1 where sb: "store_back e hkE st = (e1, st1)" by (cases "store_back e hkE st")
    from assms Some Inl p sb have r: "r = Inl (err, e1, st1)"
      by (simp add: findMaximumMatching_obj_def)
    from store_back_frame(5)[OF sb] r show ?thesis by (simp add: store_after_def)
  next
    case (Inr p)
    obtain m hk' where p: "p = (m, hk')" by (cases p)
    obtain e1 st1 where sb: "store_back e hk' st = (e1, st1)" by (cases "store_back e hk' st")
    from assms Some Inr p sb have "store_after r =
        snd (alloc (cells (snd (alloc (cells st1 (matchLeft_at e1)) st1)) (matchRight_at e1))
               (snd (alloc (cells st1 (matchLeft_at e1)) st1)))"
      by (auto simp: findMaximumMatching_obj_def store_after_def Let_def split: prod.splits)
    then have "cells (store_after r) a = cells st1 a" if "a < fresh st1" for a
      using that by (simp add: alloc_def)
    with store_back_frame(4,5)[OF sb] show ?thesis by simp
  qed
qed

lemma findMaximumMatching_obj_returns:
  assumes "findMaximumMatching stack (load e st) = Some (Inr (m, hk'))"
  shows "\<exists>mo e' st'. findMaximumMatching_obj stack e st = Some (Inr (mo, e', st'))"
  unfolding findMaximumMatching_obj_def assms by (simp add: Let_def split_def)

section \<open>The matching engine: what the specification claims\<close>

text \<open>
  C1. For a graph built by \<open>createBipartiteGraph\<close> and an engine constructed over it,
  after any number of earlier calls: \<open>findMaximumMatching\<close> returns when the call stack
  has room for \<open>leftSize + 1\<close> nested calls of \<open>dfs\<close>, and whenever it returns, the pairs
  \<open>(u, matchLeft[u])\<close> of the returned matching form a matching of the graph and no
  matching of the graph has more pairs. On the first call the returned \<open>size\<close> is that
  number of pairs.
\<close>

theorem findMaximumMatching_maximum:
  assumes built: "createBipartiteGraph l r es opts = Inr g"
    and new: "new_HopcroftKarp g = Inr hk0" and hist: "after_calls hk0 hk"
  shows "(nat (leftSize g) < stack \<longrightarrow>
           (\<exists>m hk'. findMaximumMatching stack hk = Some (Inr (m, hk')))) \<and>
         (\<forall>m hk'. findMaximumMatching stack hk = Some (Inr (m, hk')) \<longrightarrow>
            is_matching g (pairs m) \<and>
            int (card (pairs m)) = count_matched (matchLeft m) \<and>
            (\<forall>M. is_matching g M \<longrightarrow> finite M \<and> card M \<le> card (pairs m)) \<and>
            (hk = hk0 \<longrightarrow> size_m m = int (card (pairs m))))"
proof -
  from new_HopcroftKarp_inv[OF new] have g0: "this_graph hk0 = g" and inv0: "engine_inv hk0"
    and m0: "matched hk0 = {}" and ev0: "EV hk0" by simp_all
  from after_calls_inv[OF hist inv0 ev0] g0 have inv: "engine_inv hk" and ev: "EV hk"
    and g: "this_graph hk = g" by simp_all
  from createBipartiteGraph_shape[OF built] g have rw: "rows hk"
    by (simp add: rows_def LS_def)
  have L: "LS hk = leftSize g" using g by (simp add: LS_def)
  have 1: "nat (leftSize g) < stack \<longrightarrow>
           (\<exists>m hk'. findMaximumMatching stack hk = Some (Inr (m, hk')))"
    using findMaximumMatching_returns[OF inv rw, of stack] L by simp
  have 2: "is_matching g (pairs m) \<and>
            int (card (pairs m)) = count_matched (matchLeft m) \<and>
            (\<forall>M. is_matching g M \<longrightarrow> finite M \<and> card M \<le> card (pairs m)) \<and>
            (hk = hk0 \<longrightarrow> size_m m = int (card (pairs m)))"
    if run: "findMaximumMatching stack hk = Some (Inr (m, hk'))" for m hk'
  proof -
    from findMaximumMatching_Inr[OF inv run] have
      ml: "matchLeft m = this_matchLeft hk'" and
      sz: "size_m m = int (card (matched hk')) - int (card (matched hk))" and
      g': "this_graph hk' = this_graph hk" and inv': "engine_inv hk'" and
      ev': "EV hk'" and lay: "layered hk'" and nf: "dd hk' (LS hk') = \<infinity>"
      using ev by (simp_all add: fmm_post_def)
    from rw rows_cong[OF g'] have rw': "rows hk'" by simp
    from pairs_is_matching[OF inv' ev' rw' ml] g' g have a: "is_matching g (pairs m)" by simp
    have b: "int (card (pairs m)) = count_matched (matchLeft m)"
      by (simp add: card_pairs[OF ml] count_matched_def ml count_matched_left)
    have c: "\<forall>M. is_matching g M \<longrightarrow> finite M \<and> card M \<le> card (pairs m)"
      using matching_bound[OF inv' lay nf] g' g by (simp add: card_pairs[OF ml])
    have d: "hk = hk0 \<longrightarrow> size_m m = int (card (pairs m))"
      using sz m0 by (simp add: card_pairs[OF ml])
    from a b c d show ?thesis by simp
  qed
  from 1 2 show ?thesis by blast
qed

theorem findMaximumMatching_maximum_witness:
  "createBipartiteGraph 3 3 [(0, 0), (0, 1), (1, 1), (1, 2), (2, 0), (2, 2)] default_options =
     Inr \<lparr>leftSize = 3, rightSize = 3, edges = [[0, 1], [1, 2], [0, 2]]\<rparr> \<and>
   findMaximumMatching 4
     \<lparr>this_graph = \<lparr>leftSize = 3, rightSize = 3, edges = [[0, 1], [1, 2], [0, 2]]\<rparr>,
      this_matchLeft = [-1, -1, -1], this_matchRight = [-1, -1, -1],
      this_dist = [0, 0, 0, 0]\<rparr> =
     Some (Inr (\<lparr>matchLeft = [0, 1, 2], matchRight = [0, 1, 2], size_m = 3\<rparr>,
       \<lparr>this_graph = \<lparr>leftSize = 3, rightSize = 3, edges = [[0, 1], [1, 2], [0, 2]]\<rparr>,
        this_matchLeft = [0, 1, 2], this_matchRight = [0, 1, 2],
        this_dist = [\<infinity>, \<infinity>, \<infinity>, \<infinity>]\<rparr>)) \<and>
   is_matching \<lparr>leftSize = 3, rightSize = 3, edges = [[0, 1], [1, 2], [0, 2]]\<rparr>
     (pairs \<lparr>matchLeft = [0, 1, 2], matchRight = [0, 1, 2], size_m = 3\<rparr>) \<and>
   int (card (pairs \<lparr>matchLeft = [0, 1, 2], matchRight = [0, 1, 2], size_m = 3\<rparr>)) = 3 \<and>
   is_matching \<lparr>leftSize = 3, rightSize = 3, edges = [[0, 1], [1, 2], [0, 2]]\<rparr>
     {(0, 1), (1, 2), (2, 0)} \<and>
   card {(0::int, 1::int), (1, 2), (2, 0)} \<le>
     card (pairs \<lparr>matchLeft = [0, 1, 2], matchRight = [0, 1, 2], size_m = 3\<rparr>)"
proof -
  let ?G = "\<lparr>leftSize = 3, rightSize = 3, edges = [[0, 1], [1, 2], [0, 2]]\<rparr>"
  let ?H = "\<lparr>this_graph = ?G, this_matchLeft = [-1, -1, -1], this_matchRight = [-1, -1, -1],
      this_dist = [0, 0, 0, 0]\<rparr>"
  let ?M = "\<lparr>matchLeft = [0, 1, 2], matchRight = [0, 1, 2], size_m = 3\<rparr>"
  let ?H' = "\<lparr>this_graph = ?G, this_matchLeft = [0, 1, 2], this_matchRight = [0, 1, 2],
        this_dist = [\<infinity>, \<infinity>, \<infinity>, \<infinity>]\<rparr>"
  have b: "createBipartiteGraph 3 3 [(0, 0), (0, 1), (1, 1), (1, 2), (2, 0), (2, 2)]
      default_options = Inr ?G" by code_simp
  have n: "new_HopcroftKarp ?G = Inr ?H" by code_simp
  have r: "findMaximumMatching 4 ?H = Some (Inr (?M, ?H'))" by code_simp
  note c = findMaximumMatching_maximum[OF b n calls_none, of 4, THEN conjunct2, rule_format, OF r]
  note c1 = c[THEN conjunct1]
  from c[THEN conjunct2, THEN conjunct2, THEN conjunct2]
  have "size_m ?M = int (card (pairs ?M))" by simp
  then have c2: "int (card (pairs ?M)) = 3" by simp
  have m: "is_matching ?G {(0, 1), (1, 2), (2, 0)}"
    by (simp add: is_matching_def arr_get_def)
  note c3 = c[THEN conjunct2, THEN conjunct2, THEN conjunct1, rule_format, OF m, THEN conjunct2]
  from b r c1 c2 m c3 show ?thesis by (intro conjI)
qed

text \<open>
  C2 (the code departs from it). \<open>findMaximumMatching\<close> counts the augmenting paths of the
  current call from 0, and the engine keeps the matching of the call before. For the graph
  with one vertex on each side and the edge \<open>(0, 0)\<close> the first call returns size 1; a
  second call on the same engine, the graph untouched, returns the same arrays and size 0.
\<close>

theorem findMaximumMatching_second_call:
  "createBipartiteGraph 1 1 [(0, 0)] default_options =
     Inr \<lparr>leftSize = 1, rightSize = 1, edges = [[0]]\<rparr> \<and>
   new_HopcroftKarp \<lparr>leftSize = 1, rightSize = 1, edges = [[0]]\<rparr> =
     Inr \<lparr>this_graph = \<lparr>leftSize = 1, rightSize = 1, edges = [[0]]\<rparr>,
          this_matchLeft = [-1], this_matchRight = [-1], this_dist = [0, 0]\<rparr> \<and>
   findMaximumMatching 2
     \<lparr>this_graph = \<lparr>leftSize = 1, rightSize = 1, edges = [[0]]\<rparr>,
      this_matchLeft = [-1], this_matchRight = [-1], this_dist = [0, 0]\<rparr> =
     Some (Inr (\<lparr>matchLeft = [0], matchRight = [0], size_m = 1\<rparr>,
       \<lparr>this_graph = \<lparr>leftSize = 1, rightSize = 1, edges = [[0]]\<rparr>,
        this_matchLeft = [0], this_matchRight = [0], this_dist = [\<infinity>, \<infinity>]\<rparr>)) \<and>
   findMaximumMatching 2
     \<lparr>this_graph = \<lparr>leftSize = 1, rightSize = 1, edges = [[0]]\<rparr>,
      this_matchLeft = [0], this_matchRight = [0], this_dist = [\<infinity>, \<infinity>]\<rparr> =
     Some (Inr (\<lparr>matchLeft = [0], matchRight = [0], size_m = 0\<rparr>,
       \<lparr>this_graph = \<lparr>leftSize = 1, rightSize = 1, edges = [[0]]\<rparr>,
        this_matchLeft = [0], this_matchRight = [0], this_dist = [\<infinity>, \<infinity>]\<rparr>))"
  by code_simp

text \<open>
  C3 (the code departs from it). On a second call the returned \<open>size\<close> is not the number
  of matched entries. For the graph with two vertices on each side and the edges \<open>(0, 0)\<close>
  and \<open>(1, 1)\<close>, the second call returns size 0 with two non-sentinel entries in
  \<open>matchLeft\<close> and two in \<open>matchRight\<close>.
\<close>

theorem findMaximumMatching_size_mismatch:
  "createBipartiteGraph 2 2 [(0, 0), (1, 1)] default_options =
     Inr \<lparr>leftSize = 2, rightSize = 2, edges = [[0], [1]]\<rparr> \<and>
   new_HopcroftKarp \<lparr>leftSize = 2, rightSize = 2, edges = [[0], [1]]\<rparr> =
     Inr \<lparr>this_graph = \<lparr>leftSize = 2, rightSize = 2, edges = [[0], [1]]\<rparr>,
          this_matchLeft = [-1, -1], this_matchRight = [-1, -1], this_dist = [0, 0, 0]\<rparr> \<and>
   findMaximumMatching 3
     \<lparr>this_graph = \<lparr>leftSize = 2, rightSize = 2, edges = [[0], [1]]\<rparr>,
      this_matchLeft = [-1, -1], this_matchRight = [-1, -1], this_dist = [0, 0, 0]\<rparr> =
     Some (Inr (\<lparr>matchLeft = [0, 1], matchRight = [0, 1], size_m = 2\<rparr>,
       \<lparr>this_graph = \<lparr>leftSize = 2, rightSize = 2, edges = [[0], [1]]\<rparr>,
        this_matchLeft = [0, 1], this_matchRight = [0, 1],
        this_dist = [\<infinity>, \<infinity>, \<infinity>]\<rparr>)) \<and>
   findMaximumMatching 3
     \<lparr>this_graph = \<lparr>leftSize = 2, rightSize = 2, edges = [[0], [1]]\<rparr>,
      this_matchLeft = [0, 1], this_matchRight = [0, 1],
      this_dist = [\<infinity>, \<infinity>, \<infinity>]\<rparr> =
     Some (Inr (\<lparr>matchLeft = [0, 1], matchRight = [0, 1], size_m = 0\<rparr>,
       \<lparr>this_graph = \<lparr>leftSize = 2, rightSize = 2, edges = [[0], [1]]\<rparr>,
        this_matchLeft = [0, 1], this_matchRight = [0, 1],
        this_dist = [\<infinity>, \<infinity>, \<infinity>]\<rparr>)) \<and>
   size_m \<lparr>matchLeft = [0, 1], matchRight = [0, 1], size_m = 0\<rparr> = 0 \<and>
   count_matched (matchLeft \<lparr>matchLeft = [0, 1], matchRight = [0, 1], size_m = 0\<rparr>) = 2 \<and>
   count_matched (matchRight \<lparr>matchLeft = [0, 1], matchRight = [0, 1], size_m = 0\<rparr>) = 2"
  by code_simp

text \<open>
  C4. \<open>findPerfectMatching\<close> is decided by one call of \<open>findMaximumMatching\<close> on the same
  state: it returns the matching \<open>M\<close> of that call exactly when \<open>M.size\<close> equals both
  \<open>leftSize\<close> and \<open>rightSize\<close> of the graph, it returns \<open>null\<close> exactly when that call
  returns a matching whose size differs from one of them, it throws what that call
  throws, and it leaves the engine in the state that call leaves.
\<close>

theorem findPerfectMatching_delegates:
  "(\<forall>M hk'. findPerfectMatching stack hk = Some (Inr (Some M, hk')) \<longleftrightarrow>
      findMaximumMatching stack hk = Some (Inr (M, hk')) \<and>
      size_m M = leftSize (this_graph hk) \<and> size_m M = rightSize (this_graph hk)) \<and>
   (\<forall>hk'. findPerfectMatching stack hk = Some (Inr (None, hk')) \<longleftrightarrow>
      (\<exists>M. findMaximumMatching stack hk = Some (Inr (M, hk')) \<and>
           \<not> (size_m M = leftSize (this_graph hk) \<and> size_m M = rightSize (this_graph hk)))) \<and>
   (\<forall>e. findPerfectMatching stack hk = Some (Inl e) \<longleftrightarrow>
      findMaximumMatching stack hk = Some (Inl e)) \<and>
   (findPerfectMatching stack hk = None \<longleftrightarrow> findMaximumMatching stack hk = None)"
proof (cases "findMaximumMatching stack hk")
  case None
  then show ?thesis by (simp add: findPerfectMatching_def)
next
  case (Some r)
  show ?thesis
  proof (cases r)
    case (Inl e)
    with Some show ?thesis by (simp add: findPerfectMatching_def)
  next
    case (Inr p)
    obtain M0 hk0 where p: "p = (M0, hk0)" by (cases p)
    from Some Inr p have run: "findMaximumMatching stack hk = Some (Inr (M0, hk0))" by simp
    note g = findMaximumMatching_graph[OF run]
    show ?thesis by (auto simp: findPerfectMatching_def run g)
  qed
qed

theorem findPerfectMatching_delegates_witness:
  "findPerfectMatching 4
     \<lparr>this_graph = \<lparr>leftSize = 3, rightSize = 3, edges = [[0, 1], [1, 2], [0, 2]]\<rparr>,
      this_matchLeft = [-1, -1, -1], this_matchRight = [-1, -1, -1],
      this_dist = [0, 0, 0, 0]\<rparr> =
     Some (Inr (Some \<lparr>matchLeft = [0, 1, 2], matchRight = [0, 1, 2], size_m = 3\<rparr>,
       \<lparr>this_graph = \<lparr>leftSize = 3, rightSize = 3, edges = [[0, 1], [1, 2], [0, 2]]\<rparr>,
        this_matchLeft = [0, 1, 2], this_matchRight = [0, 1, 2],
        this_dist = [\<infinity>, \<infinity>, \<infinity>, \<infinity>]\<rparr>)) \<and>
   findPerfectMatching 4
     \<lparr>this_graph = \<lparr>leftSize = 3, rightSize = 2, edges = [[0], [0, 1], [1]]\<rparr>,
      this_matchLeft = [-1, -1, -1], this_matchRight = [-1, -1],
      this_dist = [0, 0, 0, 0]\<rparr> =
     Some (Inr (None,
       \<lparr>this_graph = \<lparr>leftSize = 3, rightSize = 2, edges = [[0], [0, 1], [1]]\<rparr>,
        this_matchLeft = [0, 1, -1], this_matchRight = [0, 1],
        this_dist = [2, 1, 0, \<infinity>]\<rparr>))"
proof -
  let ?G = "\<lparr>leftSize = 3, rightSize = 3, edges = [[0, 1], [1, 2], [0, 2]]\<rparr>"
  let ?H = "\<lparr>this_graph = ?G, this_matchLeft = [-1, -1, -1], this_matchRight = [-1, -1, -1],
      this_dist = [0, 0, 0, 0]\<rparr>"
  let ?M = "\<lparr>matchLeft = [0, 1, 2], matchRight = [0, 1, 2], size_m = 3\<rparr>"
  let ?H' = "\<lparr>this_graph = ?G, this_matchLeft = [0, 1, 2], this_matchRight = [0, 1, 2],
        this_dist = [\<infinity>, \<infinity>, \<infinity>, \<infinity>]\<rparr>"
  let ?G2 = "\<lparr>leftSize = 3, rightSize = 2, edges = [[0], [0, 1], [1]]\<rparr>"
  let ?K = "\<lparr>this_graph = ?G2, this_matchLeft = [-1, -1, -1], this_matchRight = [-1, -1],
      this_dist = [0, 0, 0, 0]\<rparr>"
  let ?N = "\<lparr>matchLeft = [0, 1, -1], matchRight = [0, 1], size_m = 2\<rparr>"
  let ?K' = "\<lparr>this_graph = ?G2, this_matchLeft = [0, 1, -1], this_matchRight = [0, 1],
        this_dist = [2, 1, 0, \<infinity>]\<rparr>"
  have r: "findMaximumMatching 4 ?H = Some (Inr (?M, ?H'))" by code_simp
  have s: "findMaximumMatching 4 ?K = Some (Inr (?N, ?K'))" by code_simp
  note a = findPerfectMatching_delegates[of 4 ?H, THEN conjunct1, rule_format, of ?M ?H']
  from a r have 1: "findPerfectMatching 4 ?H = Some (Inr (Some ?M, ?H'))" by simp
  note b = findPerfectMatching_delegates[of 4 ?K, THEN conjunct2, THEN conjunct1, rule_format,
      of ?K']
  have "\<exists>M. findMaximumMatching 4 ?K = Some (Inr (M, ?K')) \<and>
      \<not> (size_m M = leftSize (this_graph ?K) \<and> size_m M = rightSize (this_graph ?K))"
    by (rule exI[of _ ?N]) (simp add: s)
  with b have 2: "findPerfectMatching 4 ?K = Some (Inr (None, ?K'))" by (rule iffD2)
  from 1 2 show ?thesis by (intro conjI)
qed

text \<open>
  C7, as amended. For an engine constructed over a graph with non-negative sizes, after
  any calls and any replacements of the adjacency lists by the caller: when the graph
  holds an adjacency list for each left vertex and the call stack has room for
  \<open>leftSize + 1\<close> nested calls of \<open>dfs\<close>, \<open>findMaximumMatching\<close> returns a matching and
  throws nothing, whatever numbers the adjacency lists hold; an entry outside
  \<open>[0, rightSize)\<close> is skipped by the scan of \<open>bfs\<close> and by the scan of \<open>dfs\<close>.
\<close>

theorem findMaximumMatching_total:
  assumes new: "new_HopcroftKarp g = Inr hk0" and hist: "after_use hk0 hk"
    and rw: "nat (leftSize g) \<le> length (edges (this_graph hk))"
    and st: "nat (leftSize g) < stack"
  shows "(\<exists>m hk'. findMaximumMatching stack hk = Some (Inr (m, hk'))) \<and>
     (\<forall>v vs. v < 0 \<or> v \<ge> rightSize g \<longrightarrow>
        (\<forall>u d q. bfs_edges (leftSize g) (rightSize g) (this_matchRight hk) u d q (v # vs) =
                 bfs_edges (leftSize g) (rightSize g) (this_matchRight hk) u d q vs) \<and>
        (\<forall>s u. dfs_loop s hk u (v # vs) = dfs_loop s hk u vs))"
proof -
  from new_HopcroftKarp_inv[OF new] have g0: "this_graph hk0 = g" and inv0: "engine_inv hk0"
    by simp_all
  from after_use_inv[OF hist inv0] g0 have inv: "engine_inv hk"
    and L: "LS hk = leftSize g" and R: "RS hk = rightSize g" by (simp_all add: LS_def RS_def)
  from rw L have rows: "rows hk" by (simp add: rows_def)
  from findMaximumMatching_returns[OF inv rows, of stack] st L
  have 1: "\<exists>m hk'. findMaximumMatching stack hk = Some (Inr (m, hk'))" by simp
  have 2: "\<forall>s u. dfs_loop s hk u (v # vs) = dfs_loop s hk u vs"
    if "v < 0 \<or> v \<ge> rightSize g" for v vs
    using that R by (simp add: skip_dfs RS_def)
  from 1 2 show ?thesis by (simp add: skip_bfs)
qed

theorem findMaximumMatching_total_witness:
  "new_HopcroftKarp \<lparr>leftSize = 2, rightSize = 2, edges = [[0], [0]]\<rparr> =
     Inr \<lparr>this_graph = \<lparr>leftSize = 2, rightSize = 2, edges = [[0], [0]]\<rparr>,
          this_matchLeft = [-1, -1], this_matchRight = [-1, -1], this_dist = [0, 0, 0]\<rparr> \<and>
   (\<exists>m hk'. findMaximumMatching 3
      (set_edges \<lparr>this_graph = \<lparr>leftSize = 2, rightSize = 2, edges = [[0], [0]]\<rparr>,
          this_matchLeft = [-1, -1], this_matchRight = [-1, -1], this_dist = [0, 0, 0]\<rparr>
        [[7, 0, -1], [0, 1, 2]]) = Some (Inr (m, hk'))) \<and>
   dfs_loop 2
      (set_edges \<lparr>this_graph = \<lparr>leftSize = 2, rightSize = 2, edges = [[0], [0]]\<rparr>,
          this_matchLeft = [-1, -1], this_matchRight = [-1, -1], this_dist = [0, 0, 0]\<rparr>
        [[7, 0, -1], [0, 1, 2]]) 0 [7, 0, -1] =
   dfs_loop 2
      (set_edges \<lparr>this_graph = \<lparr>leftSize = 2, rightSize = 2, edges = [[0], [0]]\<rparr>,
          this_matchLeft = [-1, -1], this_matchRight = [-1, -1], this_dist = [0, 0, 0]\<rparr>
        [[7, 0, -1], [0, 1, 2]]) 0 [0, -1]"
proof -
  let ?G = "\<lparr>leftSize = 2, rightSize = 2, edges = [[0], [0]]\<rparr>"
  let ?H = "\<lparr>this_graph = ?G, this_matchLeft = [-1, -1], this_matchRight = [-1, -1],
      this_dist = [0, 0, 0]\<rparr>"
  let ?K = "set_edges ?H [[7, 0, -1], [0, 1, 2]]"
  have n: "new_HopcroftKarp ?G = Inr ?H" by code_simp
  have h: "after_use ?H ?K" by (rule use_mutate[OF use_none])
  have rw: "nat (leftSize ?G) \<le> length (edges (this_graph ?K))" by (simp add: set_edges_def)
  have st: "nat (leftSize ?G) < 3" by simp
  note c = findMaximumMatching_total[OF n h rw st]
  from c have 1: "\<exists>m hk'. findMaximumMatching 3 ?K = Some (Inr (m, hk'))" by (rule conjunct1)
  have v: "(7::int) < 0 \<or> 7 \<ge> rightSize ?G" by simp
  from c have "\<forall>v vs. v < 0 \<or> v \<ge> rightSize ?G \<longrightarrow>
        (\<forall>u d q. bfs_edges (leftSize ?G) (rightSize ?G) (this_matchRight ?K) u d q (v # vs) =
                 bfs_edges (leftSize ?G) (rightSize ?G) (this_matchRight ?K) u d q vs) \<and>
        (\<forall>s u. dfs_loop s ?K u (v # vs) = dfs_loop s ?K u vs)" by (rule conjunct2)
  then have "(7::int) < 0 \<or> 7 \<ge> rightSize ?G \<longrightarrow>
        (\<forall>u d q. bfs_edges (leftSize ?G) (rightSize ?G) (this_matchRight ?K) u d q (7 # [0, -1]) =
                 bfs_edges (leftSize ?G) (rightSize ?G) (this_matchRight ?K) u d q [0, -1]) \<and>
        (\<forall>s u. dfs_loop s ?K u (7 # [0, -1]) = dfs_loop s ?K u [0, -1])" by (elim allE)
  with v have "\<forall>s u. dfs_loop s ?K u (7 # [0, -1]) = dfs_loop s ?K u [0, -1]" by (elim impE conjE)
  then have 2: "dfs_loop 2 ?K 0 [7, 0, -1] = dfs_loop 2 ?K 0 [0, -1]" by (elim allE)
  from n 1 2 show ?thesis by (intro conjI)
qed

text \<open>
  C7 as stated fails in two ways. An engine over the graph with \<open>leftSize = 1\<close>,
  \<open>rightSize = 1\<close> and an empty \<open>edges\<close> array (non-negative sizes, no adjacency list for
  the left vertex 0) throws a TypeError in \<open>bfs\<close>, where \<open>edges[0]\<close> is iterated. And an
  engine over the graph with the one edge \<open>(0, 0)\<close> throws a RangeError when the call
  stack has room for one call of \<open>dfs\<close> only: the call \<open>dfs(0)\<close> calls \<open>dfs(1)\<close>.
\<close>

theorem findMaximumMatching_total_counterexample:
  "new_HopcroftKarp \<lparr>leftSize = 1, rightSize = 1, edges = []\<rparr> =
     Inr \<lparr>this_graph = \<lparr>leftSize = 1, rightSize = 1, edges = []\<rparr>,
          this_matchLeft = [-1], this_matchRight = [-1], this_dist = [0, 0]\<rparr> \<and>
   findMaximumMatching 2
     \<lparr>this_graph = \<lparr>leftSize = 1, rightSize = 1, edges = []\<rparr>,
      this_matchLeft = [-1], this_matchRight = [-1], this_dist = [0, 0]\<rparr> =
     Some (Inl (TypeError,
       \<lparr>this_graph = \<lparr>leftSize = 1, rightSize = 1, edges = []\<rparr>,
        this_matchLeft = [-1], this_matchRight = [-1], this_dist = [0, \<infinity>]\<rparr>)) \<and>
   new_HopcroftKarp \<lparr>leftSize = 1, rightSize = 1, edges = [[0]]\<rparr> =
     Inr \<lparr>this_graph = \<lparr>leftSize = 1, rightSize = 1, edges = [[0]]\<rparr>,
          this_matchLeft = [-1], this_matchRight = [-1], this_dist = [0, 0]\<rparr> \<and>
   findMaximumMatching 1
     \<lparr>this_graph = \<lparr>leftSize = 1, rightSize = 1, edges = [[0]]\<rparr>,
      this_matchLeft = [-1], this_matchRight = [-1], this_dist = [0, 0]\<rparr> =
     Some (Inl (RangeError,
       \<lparr>this_graph = \<lparr>leftSize = 1, rightSize = 1, edges = [[0]]\<rparr>,
        this_matchLeft = [-1], this_matchRight = [-1], this_dist = [0, 1]\<rparr>))"
  by code_simp

text \<open>
  C8. For every graph over which an engine can be constructed, after any calls and any
  replacements of the adjacency lists by the caller, the \<open>size\<close> of a matching returned by
  \<open>findMaximumMatching\<close> is at least 0 and at most \<open>min(leftSize, rightSize)\<close>.
\<close>

theorem findMaximumMatching_size_bound:
  assumes new: "new_HopcroftKarp g = Inr hk0" and hist: "after_use hk0 hk"
    and run: "findMaximumMatching stack hk = Some (Inr (m, hk'))"
  shows "0 \<le> size_m m \<and> size_m m \<le> min (leftSize g) (rightSize g)"
proof -
  from new_HopcroftKarp_inv[OF new] have g0: "this_graph hk0 = g" and inv0: "engine_inv hk0"
    by simp_all
  from after_use_inv[OF hist inv0] g0 have inv: "engine_inv hk"
    and L: "LS hk = leftSize g" and R: "RS hk = rightSize g" by (simp_all add: LS_def RS_def)
  from findMaximumMatching_Inr[OF inv run] have
    sz: "size_m m = int (card (matched hk')) - int (card (matched hk))" and
    g': "this_graph hk' = this_graph hk" and inv': "engine_inv hk'" and
    sub: "matched hk \<subseteq> matched hk'"
    by (simp_all add: fmm_post_def)
  from inv' have sh': "shape hk'" by (simp add: engine_inv_def)
  have L': "LS hk' = leftSize g" "RS hk' = rightSize g" using g' L R by (simp_all add: LS_def RS_def)
  from card_mono[OF finite_matched[OF sh'] sub] sz have lo: "0 \<le> size_m m" by simp
  from sh' L' have nn: "0 \<le> leftSize g" "0 \<le> rightSize g" by (simp_all add: shape_def)
  from card_matched_le[OF sh'] L' nn have "int (card (matched hk')) \<le> leftSize g" by simp
  moreover from card_matchedR_le[OF sh'] card_matched_sides[OF inv'] L' nn
  have "int (card (matched hk')) \<le> rightSize g" by simp
  ultimately show ?thesis using lo sz by simp
qed

theorem findMaximumMatching_size_bound_witness:
  "new_HopcroftKarp \<lparr>leftSize = 3, rightSize = 2, edges = [[0], [0, 1], [1]]\<rparr> =
     Inr \<lparr>this_graph = \<lparr>leftSize = 3, rightSize = 2, edges = [[0], [0, 1], [1]]\<rparr>,
      this_matchLeft = [-1, -1, -1], this_matchRight = [-1, -1],
      this_dist = [0, 0, 0, 0]\<rparr> \<and>
   findMaximumMatching 4
     \<lparr>this_graph = \<lparr>leftSize = 3, rightSize = 2, edges = [[0], [0, 1], [1]]\<rparr>,
      this_matchLeft = [-1, -1, -1], this_matchRight = [-1, -1],
      this_dist = [0, 0, 0, 0]\<rparr> =
     Some (Inr (\<lparr>matchLeft = [0, 1, -1], matchRight = [0, 1], size_m = 2\<rparr>,
       \<lparr>this_graph = \<lparr>leftSize = 3, rightSize = 2, edges = [[0], [0, 1], [1]]\<rparr>,
        this_matchLeft = [0, 1, -1], this_matchRight = [0, 1],
        this_dist = [2, 1, 0, \<infinity>]\<rparr>)) \<and>
   0 \<le> size_m \<lparr>matchLeft = [0, 1, -1], matchRight = [0, 1], size_m = 2\<rparr> \<and>
   size_m \<lparr>matchLeft = [0, 1, -1], matchRight = [0, 1], size_m = 2\<rparr> \<le>
     min (leftSize \<lparr>leftSize = 3, rightSize = 2, edges = [[0], [0, 1], [1]]\<rparr>)
         (rightSize \<lparr>leftSize = 3, rightSize = 2, edges = [[0], [0, 1], [1]]\<rparr>)"
proof -
  let ?G2 = "\<lparr>leftSize = 3, rightSize = 2, edges = [[0], [0, 1], [1]]\<rparr>"
  let ?K = "\<lparr>this_graph = ?G2, this_matchLeft = [-1, -1, -1], this_matchRight = [-1, -1],
      this_dist = [0, 0, 0, 0]\<rparr>"
  let ?N = "\<lparr>matchLeft = [0, 1, -1], matchRight = [0, 1], size_m = 2\<rparr>"
  let ?K' = "\<lparr>this_graph = ?G2, this_matchLeft = [0, 1, -1], this_matchRight = [0, 1],
        this_dist = [2, 1, 0, \<infinity>]\<rparr>"
  have n: "new_HopcroftKarp ?G2 = Inr ?K" by code_simp
  have s: "findMaximumMatching 4 ?K = Some (Inr (?N, ?K'))" by code_simp
  note c = findMaximumMatching_size_bound[OF n use_none s]
  from c have 1: "0 \<le> size_m ?N" by (rule conjunct1)
  from c have 2: "size_m ?N \<le> min (leftSize ?G2) (rightSize ?G2)" by (rule conjunct2)
  from n s 1 2 show ?thesis by (intro conjI)
qed

text \<open>
  C9. In the store, the two arrays of a \<open>Matching\<close> returned by \<open>findMaximumMatching\<close> are
  new arrays: they are not the engine's arrays, not each other and not any array that
  existed before the call, and they hold what the engine's arrays hold at the return. So
  writing to a returned array leaves the state the engine reads as it is, and a later
  call of \<open>findMaximumMatching\<close> on the engine leaves the returned arrays as they are.
\<close>

theorem findMaximumMatching_snapshot:
  assumes "matchLeft_at e < fresh st" "matchRight_at e < fresh st"
    and "matchLeft_at e \<noteq> matchRight_at e"
    and run: "findMaximumMatching_obj stack e st = Some (Inr (mo, e', st'))"
  shows "matchLeft_ref mo \<noteq> matchLeft_at e' \<and> matchLeft_ref mo \<noteq> matchRight_at e' \<and>
     matchRight_ref mo \<noteq> matchLeft_at e' \<and> matchRight_ref mo \<noteq> matchRight_at e' \<and>
     matchLeft_ref mo \<noteq> matchRight_ref mo \<and>
     fresh st \<le> matchLeft_ref mo \<and> fresh st \<le> matchRight_ref mo \<and>
     matchLeft_ref mo < fresh st' \<and> matchRight_ref mo < fresh st' \<and>
     cells st' (matchLeft_ref mo) = this_matchLeft (load e' st') \<and>
     cells st' (matchRight_ref mo) = this_matchRight (load e' st') \<and>
     (\<forall>xs. load e' (write_array st' (matchLeft_ref mo) xs) = load e' st' \<and>
           load e' (write_array st' (matchRight_ref mo) xs) = load e' st') \<and>
     (\<forall>stack2 r. findMaximumMatching_obj stack2 e' st' = Some r \<longrightarrow>
        cells (store_after r) (matchLeft_ref mo) = cells st' (matchLeft_ref mo) \<and>
        cells (store_after r) (matchRight_ref mo) = cells st' (matchRight_ref mo))"
proof -
  from run obtain m hk' where pure: "findMaximumMatching stack (load e st) = Some (Inr (m, hk'))"
    by (auto simp: findMaximumMatching_obj_def split: option.splits sum.splits)
  obtain e1 st1 where sb: "store_back e hk' st = (e1, st1)" by (cases "store_back e hk' st")
  define a1 where "a1 = fresh st1"
  define st2 where "st2 = snd (alloc (cells st1 (matchLeft_at e1)) st1)"
  define a2 where "a2 = fresh st2"
  define st3 where "st3 = snd (alloc (cells st2 (matchRight_at e1)) st2)"
  from run pure sb have res: "mo = \<lparr>matchLeft_ref = a1, matchRight_ref = a2, size_of = size_m m\<rparr>"
    "e' = e1" "st' = st3"
    by (auto simp: findMaximumMatching_obj_def Let_def alloc_def a1_def a2_def st2_def st3_def
        split: prod.splits)
  note fr = store_back_frame[OF sb]
  have f1: "fresh st1 = fresh st" by (rule fr(4))
  have a: "a1 = fresh st" "a2 = Suc (fresh st)" "fresh st3 = Suc (Suc (fresh st))"
    by (simp_all add: a1_def a2_def st2_def st3_def alloc_def f1)
  have eL: "matchLeft_at e1 < fresh st" "matchRight_at e1 < fresh st"
    using assms(1,2) fr(1,2) by simp_all
  have c3: "cells st3 = (cells st1)(a1 := cells st1 (matchLeft_at e1),
                                   a2 := cells st1 (matchRight_at e1))"
    using eL a by (auto simp: st3_def st2_def alloc_def a1_def a2_def f1 fun_eq_iff)
  have 1: "a1 \<noteq> matchLeft_at e1" "a1 \<noteq> matchRight_at e1" "a2 \<noteq> matchLeft_at e1"
    "a2 \<noteq> matchRight_at e1" "a1 \<noteq> a2" using a eL by simp_all
  have 2: "cells st3 a1 = this_matchLeft (load e1 st3)"
    "cells st3 a2 = this_matchRight (load e1 st3)"
    using 1 by (simp_all add: c3 load_def)
  have 3: "load e1 (write_array st3 a1 xs) = load e1 st3"
    "load e1 (write_array st3 a2 xs) = load e1 st3" for xs
    using 1 by (simp_all add: load_def write_array_def)
  have 4: "cells (store_after r) a1 = cells st3 a1 \<and> cells (store_after r) a2 = cells st3 a2"
    if "findMaximumMatching_obj stack2 e1 st3 = Some r" for stack2 r
    using findMaximumMatching_obj_frame[OF that] 1 a by simp
  from 1 2 3 4 a show ?thesis unfolding res by simp
qed

theorem findMaximumMatching_snapshot_witness:
  "\<exists>mo e' st'.
     findMaximumMatching_obj 2
       \<lparr>graph_of = \<lparr>leftSize = 1, rightSize = 1, edges = [[0]]\<rparr>,
        matchLeft_at = 0, matchRight_at = 1, dist_of = [0, 0]\<rparr>
       \<lparr>cells = (\<lambda>a. [])(0 := [-1], 1 := [-1]), fresh = 2\<rparr> = Some (Inr (mo, e', st')) \<and>
     matchLeft_ref mo \<noteq> matchLeft_at e' \<and> matchRight_ref mo \<noteq> matchRight_at e' \<and>
     2 \<le> matchLeft_ref mo \<and> 2 \<le> matchRight_ref mo \<and>
     cells st' (matchLeft_ref mo) = this_matchLeft (load e' st') \<and>
     cells st' (matchRight_ref mo) = this_matchRight (load e' st') \<and>
     load e' (write_array st' (matchLeft_ref mo) [5]) = load e' st'"
proof -
  let ?E = "\<lparr>graph_of = \<lparr>leftSize = 1, rightSize = 1, edges = [[0]]\<rparr>,
        matchLeft_at = 0, matchRight_at = 1, dist_of = [0, 0]\<rparr>"
  let ?S = "\<lparr>cells = (\<lambda>a. [])(0 := [-1], 1 := [-1]), fresh = 2\<rparr>"
  let ?H = "\<lparr>this_graph = \<lparr>leftSize = 1, rightSize = 1, edges = [[0]]\<rparr>,
      this_matchLeft = [-1], this_matchRight = [-1], this_dist = [0, 0]\<rparr>"
  have l: "load ?E ?S = ?H" by (simp add: load_def)
  have p: "findMaximumMatching 2 ?H =
     Some (Inr (\<lparr>matchLeft = [0], matchRight = [0], size_m = 1\<rparr>,
       \<lparr>this_graph = \<lparr>leftSize = 1, rightSize = 1, edges = [[0]]\<rparr>,
        this_matchLeft = [0], this_matchRight = [0], this_dist = [\<infinity>, \<infinity>]\<rparr>))"
    by code_simp
  from p have "findMaximumMatching 2 (load ?E ?S) =
     Some (Inr (\<lparr>matchLeft = [0], matchRight = [0], size_m = 1\<rparr>,
       \<lparr>this_graph = \<lparr>leftSize = 1, rightSize = 1, edges = [[0]]\<rparr>,
        this_matchLeft = [0], this_matchRight = [0], this_dist = [\<infinity>, \<infinity>]\<rparr>))"
    by (simp only: l)
  from findMaximumMatching_obj_returns[OF this] obtain mo e' st' where
    run: "findMaximumMatching_obj 2 ?E ?S = Some (Inr (mo, e', st'))" by (elim exE)
  have h: "matchLeft_at ?E < fresh ?S" "matchRight_at ?E < fresh ?S"
    "matchLeft_at ?E \<noteq> matchRight_at ?E" by simp_all
  note c = findMaximumMatching_snapshot[OF h run]
  note c1 = c[THEN conjunct1]
  note s1 = c[THEN conjunct2]
  note s2 = s1[THEN conjunct2]
  note s3 = s2[THEN conjunct2]
  note c4 = s3[THEN conjunct1]
  note s4 = s3[THEN conjunct2]
  note s5 = s4[THEN conjunct2]
  note s6 = s5[THEN conjunct2]
  note s7 = s6[THEN conjunct2]
  note s8 = s7[THEN conjunct2]
  note s9 = s8[THEN conjunct2]
  note c10 = s9[THEN conjunct1]
  note s10 = s9[THEN conjunct2]
  note c11 = s10[THEN conjunct1]
  note s11 = s10[THEN conjunct2]
  note c12 = s11[THEN conjunct1, THEN spec, of "[5]", THEN conjunct1]
  from s5[THEN conjunct1] have c6: "2 \<le> matchLeft_ref mo" by simp
  from s6[THEN conjunct1] have c7: "2 \<le> matchRight_ref mo" by simp
  from run c1 c4 c6 c7 c10 c11 c12 show ?thesis by (intro exI conjI)
qed



text \<open>
  Beyond the size: over a graph built by \<open>createBipartiteGraph\<close>, after any earlier calls,
  every returned matching is consistent. A non-sentinel entry \<open>matchLeft[u] = v\<close> has
  \<open>matchRight[v] = u\<close> and \<open>v\<close> in \<open>edges[u]\<close>, a non-sentinel entry \<open>matchRight[v] = u\<close> has
  \<open>matchLeft[u] = v\<close>, the arrays have \<open>leftSize\<close> and \<open>rightSize\<close> elements and as many
  non-sentinel entries one as the other; on the first call \<open>size\<close> is that number.
\<close>

theorem findMaximumMatching_wellformed:
  assumes built: "createBipartiteGraph l r es opts = Inr g"
    and new: "new_HopcroftKarp g = Inr hk0" and hist: "after_calls hk0 hk"
    and run: "findMaximumMatching stack hk = Some (Inr (m, hk'))"
  shows "(\<forall>u v. arr_get (matchLeft m) u = Some v \<and> v \<noteq> NIL \<longrightarrow>
            arr_get (matchRight m) v = Some u \<and>
            (\<exists>vs. arr_get (edges g) u = Some vs \<and> v \<in> set vs)) \<and>
         (\<forall>v u. arr_get (matchRight m) v = Some u \<and> u \<noteq> NIL \<longrightarrow>
            arr_get (matchLeft m) u = Some v) \<and>
         length (matchLeft m) = nat (leftSize g) \<and> length (matchRight m) = nat (rightSize g) \<and>
         count_matched (matchLeft m) = count_matched (matchRight m) \<and>
         (hk = hk0 \<longrightarrow> size_m m = count_matched (matchLeft m))"
proof -
  from new_HopcroftKarp_inv[OF new] have g0: "this_graph hk0 = g" and inv0: "engine_inv hk0"
    and m0: "matched hk0 = {}" and ev0: "EV hk0" by simp_all
  from after_calls_inv[OF hist inv0 ev0] g0 have inv: "engine_inv hk" and ev: "EV hk"
    and g: "this_graph hk = g" by simp_all
  from createBipartiteGraph_shape[OF built] g have rw: "rows hk"
    by (simp add: rows_def LS_def)
  from findMaximumMatching_Inr[OF inv run] have
    ml: "matchLeft m = this_matchLeft hk'" and mr: "matchRight m = this_matchRight hk'" and
    sz: "size_m m = int (card (matched hk')) - int (card (matched hk))" and
    g': "this_graph hk' = this_graph hk" and inv': "engine_inv hk'" and
    ev': "EV hk'"
    using ev by (simp_all add: fmm_post_def)
  from rw rows_cong[OF g'] have rw': "rows hk'" by simp
  from inv' have sh': "shape hk'" by (simp add: engine_inv_def)
  have L: "LS hk' = leftSize g" "RS hk' = rightSize g" using g' g by (simp_all add: LS_def RS_def)
  have 1: "arr_get (matchRight m) v = Some u \<and>
            (\<exists>vs. arr_get (edges g) u = Some vs \<and> v \<in> set vs)"
    if "arr_get (matchLeft m) u = Some v \<and> v \<noteq> NIL" for u v
  proof -
    from that have u: "u \<in> matched hk'" and v: "mL hk' u = v"
      by (simp_all add: ml arr_get_mL_iff)
    from matched_cases[OF inv' u] v have r: "0 \<le> u" "u < LS hk'" "0 \<le> v" "v < RS hk'"
      "mR hk' v = u" by simp_all
    from arr_get_mR[OF sh' r(3,4)] r(5) have a: "arr_get (matchRight m) v = Some u"
      by (simp add: mr)
    from ev' u v have "v \<in> set (row hk' u)" by (auto simp: EV_def matched_def)
    with arr_get_row[OF rw' r(1,2)] g' g
    have "\<exists>vs. arr_get (edges g) u = Some vs \<and> v \<in> set vs" by simp
    with a show ?thesis by simp
  qed
  have 2: "arr_get (matchLeft m) u = Some v"
    if "arr_get (matchRight m) v = Some u \<and> u \<noteq> NIL" for u v
  proof -
    from that have v: "v \<in> matchedR hk'" and u: "mR hk' v = u"
      by (simp_all add: mr arr_get_mR_iff)
    from matchedR_cases[OF inv' v] u have r: "0 \<le> u" "u < LS hk'" "mL hk' u = v" by simp_all
    from arr_get_mL[OF sh' r(1,2)] r(3) show ?thesis by (simp add: ml)
  qed
  have 3: "length (matchLeft m) = nat (leftSize g)" "length (matchRight m) = nat (rightSize g)"
    using sh' L by (simp_all add: shape_def ml mr)
  have 4: "count_matched (matchLeft m) = count_matched (matchRight m)"
    by (simp add: count_matched_def ml mr count_matched_left count_matched_right
        card_matched_sides[OF inv'])
  have 5: "hk = hk0 \<longrightarrow> size_m m = count_matched (matchLeft m)"
    using sz m0 by (simp add: count_matched_def ml count_matched_left)
  from 1 2 3 4 5 show ?thesis by blast
qed

theorem findMaximumMatching_wellformed_witness:
  "createBipartiteGraph 3 2 [(0, 0), (1, 0), (1, 1), (2, 1), (2, 5)] default_options =
     Inr \<lparr>leftSize = 3, rightSize = 2, edges = [[0], [0, 1], [1]]\<rparr> \<and>
   findMaximumMatching 4
     \<lparr>this_graph = \<lparr>leftSize = 3, rightSize = 2, edges = [[0], [0, 1], [1]]\<rparr>,
      this_matchLeft = [-1, -1, -1], this_matchRight = [-1, -1],
      this_dist = [0, 0, 0, 0]\<rparr> =
     Some (Inr (\<lparr>matchLeft = [0, 1, -1], matchRight = [0, 1], size_m = 2\<rparr>,
       \<lparr>this_graph = \<lparr>leftSize = 3, rightSize = 2, edges = [[0], [0, 1], [1]]\<rparr>,
        this_matchLeft = [0, 1, -1], this_matchRight = [0, 1],
        this_dist = [2, 1, 0, \<infinity>]\<rparr>)) \<and>
   arr_get (matchRight \<lparr>matchLeft = [0, 1, -1], matchRight = [0, 1], size_m = 2\<rparr>) 1 = Some 1 \<and>
   count_matched (matchLeft \<lparr>matchLeft = [0, 1, -1], matchRight = [0, 1], size_m = 2\<rparr>) =
     count_matched (matchRight \<lparr>matchLeft = [0, 1, -1], matchRight = [0, 1], size_m = 2\<rparr>) \<and>
   size_m \<lparr>matchLeft = [0, 1, -1], matchRight = [0, 1], size_m = 2\<rparr> =
     count_matched (matchLeft \<lparr>matchLeft = [0, 1, -1], matchRight = [0, 1], size_m = 2\<rparr>)"
proof -
  let ?G2 = "\<lparr>leftSize = 3, rightSize = 2, edges = [[0], [0, 1], [1]]\<rparr>"
  let ?K = "\<lparr>this_graph = ?G2, this_matchLeft = [-1, -1, -1], this_matchRight = [-1, -1],
      this_dist = [0, 0, 0, 0]\<rparr>"
  let ?N = "\<lparr>matchLeft = [0, 1, -1], matchRight = [0, 1], size_m = 2\<rparr>"
  let ?K' = "\<lparr>this_graph = ?G2, this_matchLeft = [0, 1, -1], this_matchRight = [0, 1],
        this_dist = [2, 1, 0, \<infinity>]\<rparr>"
  have b: "createBipartiteGraph 3 2 [(0, 0), (1, 0), (1, 1), (2, 1), (2, 5)] default_options =
     Inr ?G2" by code_simp
  have n: "new_HopcroftKarp ?G2 = Inr ?K" by code_simp
  have s: "findMaximumMatching 4 ?K = Some (Inr (?N, ?K'))" by code_simp
  note c = findMaximumMatching_wellformed[OF b n calls_none s]
  have p: "arr_get (matchLeft ?N) 1 = Some 1 \<and> (1::int) \<noteq> NIL"
    by (simp add: arr_get_def NIL_def)
  note c1 = c[THEN conjunct1, rule_format, OF p, THEN conjunct1]
  note t = c[THEN conjunct2, THEN conjunct2, THEN conjunct2, THEN conjunct2]
  note c5 = t[THEN conjunct1]
  from t[THEN conjunct2] have c6: "size_m ?N = count_matched (matchLeft ?N)" by simp
  from b s c1 c5 c6 show ?thesis by (intro conjI)
qed

end
